theory Spec2Isabelle
  imports Complex_Main "HOL-Library.Multiset"
begin

section \<open>Pattern store\<close>

text \<open>
  A cell of the grid. The source reads the velocity as \<^verbatim>\<open>cell.velocity ?? 0.8\<close>, so a
  cell may carry no velocity: \<open>None\<close> stands for \<^verbatim>\<open>undefined\<close>/\<^verbatim>\<open>null\<close>. A number is a
  real, standing for a finite double; where the source multiplies doubles, the exact
  product is rounded to a double (\<open>js_times\<close> below).
\<close>

record Cell =
  active :: bool
  velocity :: "real option"

type_synonym TrackPattern = "Cell list list"

text \<open>\<^verbatim>\<open>x ?? d\<close>: the default is taken only for a nullish left operand.\<close>

fun nullish :: "'a option \<Rightarrow> 'a \<Rightarrow> 'a" where
  "nullish None d = d"
| "nullish (Some v) d = v"

text \<open>\<^verbatim>\<open>xs[i]\<close> on a JavaScript array: out of range it is \<^verbatim>\<open>undefined\<close>.\<close>

definition js_index :: "'a list \<Rightarrow> nat \<Rightarrow> 'a option" where
  "js_index xs i = (if i < length xs then Some (xs ! i) else None)"

section \<open>Event extractor\<close>

text \<open>
  \<^verbatim>\<open>interface SequencerEvent { step; durationSteps; note; velocity }\<close>. The fields
  \<^verbatim>\<open>note\<close> and \<^verbatim>\<open>velocity\<close> are \<open>evNote\<close> and \<open>evVelocity\<close> here (the first is a
  keyword of the prover, the second is the cell's field already). The note is
  \<^verbatim>\<open>NOTE_NAMES[rowIndex]\<close>, which is \<^verbatim>\<open>undefined\<close> for a row beyond the table.
\<close>

record SequencerEvent =
  step :: nat
  durationSteps :: nat
  evNote :: "string option"
  evVelocity :: real

text \<open>
  The inner loop of \<^verbatim>\<open>extractTrackEvents\<close>:
  \<^verbatim>\<open>while (step + length < row.length && pattern[rowIndex][step + length].active) length += 1\<close>.
  Inside \<^verbatim>\<open>pattern.forEach((row, rowIndex) => ...)\<close> the array \<^verbatim>\<open>pattern[rowIndex]\<close> is \<^verbatim>\<open>row\<close>.
\<close>

function runLength :: "Cell list \<Rightarrow> nat \<Rightarrow> nat \<Rightarrow> nat" where
  "runLength row stp len =
     (if stp + len < length row \<and> active (row ! (stp + len))
      then runLength row stp (len + 1)
      else len)"
  by pat_completeness auto
termination
  by (relation "measure (\<lambda>(row, stp, len). length row - (stp + len))") auto

declare runLength.simps [simp del]

text \<open>
  The outer loop \<^verbatim>\<open>while (step < row.length)\<close> over one row, pushing onto the shared
  \<^verbatim>\<open>events\<close> array. \<open>NOTE_NAMES\<close> is imported by the source from a module that is not
  part of the sources at hand, so it is a parameter.
\<close>

function scanRow ::
  "string list \<Rightarrow> nat \<Rightarrow> Cell list \<Rightarrow> nat \<Rightarrow> SequencerEvent list \<Rightarrow> SequencerEvent list"
where
  "scanRow NOTE_NAMES rowIndex row stp events =
     (if stp < length row then
        (if \<not> active (row ! stp) then scanRow NOTE_NAMES rowIndex row (stp + 1) events
         else scanRow NOTE_NAMES rowIndex row (stp + runLength row stp 1)
                (events @
                 [\<lparr>step = stp, durationSteps = runLength row stp 1,
                   evNote = js_index NOTE_NAMES rowIndex,
                   evVelocity = nullish (velocity (row ! stp)) 0.8\<rparr>]))
      else events)"
  by pat_completeness auto
termination
proof (relation "measure (\<lambda>(N, i, row, stp, events). length row - stp)", goal_cases)
  case 1
  show ?case by simp
next
  case (2 N i row stp events)
  then show ?case by simp
next
  case (3 N i row stp events)
  have ge: "len \<le> runLength r s len" for r s len
    by (induction r s len rule: runLength.induct)
       (subst runLength.simps, auto)
  from ge [of 1 row stp] 3 show ?case by simp
qed

declare scanRow.simps [simp del]

text \<open>\<^verbatim>\<open>pattern.forEach((row, rowIndex) => ...)\<close>, rows in index order.\<close>

fun forEachRow ::
  "string list \<Rightarrow> TrackPattern \<Rightarrow> nat \<Rightarrow> SequencerEvent list \<Rightarrow> SequencerEvent list"
where
  "forEachRow NOTE_NAMES [] rowIndex events = events"
| "forEachRow NOTE_NAMES (row # rest) rowIndex events =
     forEachRow NOTE_NAMES rest (rowIndex + 1) (scanRow NOTE_NAMES rowIndex row 0 events)"

definition extractTrackEvents :: "string list \<Rightarrow> TrackPattern \<Rightarrow> SequencerEvent list" where
  "extractTrackEvents NOTE_NAMES pattern = forEachRow NOTE_NAMES pattern 0 []"

text \<open>The events one row contributes: its scan from step 0 with nothing pushed yet.\<close>

definition rowEvents :: "string list \<Rightarrow> nat \<Rightarrow> Cell list \<Rightarrow> SequencerEvent list" where
  "rowEvents NOTE_NAMES rowIndex row = scanRow NOTE_NAMES rowIndex row 0 []"

text \<open>The steps an event covers: where it starts and how many steps it lasts.\<close>

definition span :: "SequencerEvent \<Rightarrow> nat \<times> nat" where
  "span e = (step e, durationSteps e)"

text \<open>
  A maximal run of a row: \<open>d\<close> active cells from step \<open>s\<close> on, with no active cell
  directly before or after them.
\<close>

definition maximalRun :: "Cell list \<Rightarrow> nat \<Rightarrow> nat \<Rightarrow> bool" where
  "maximalRun row s d \<longleftrightarrow>
     1 \<le> d \<and> s + d \<le> length row \<and>
     (\<forall>k \<in> {s..<s + d}. active (row ! k)) \<and>
     (s = 0 \<or> \<not> active (row ! (s - 1))) \<and>
     (s + d = length row \<or> \<not> active (row ! (s + d)))"

text \<open>The object pushed for the run that starts at step \<open>s\<close>.\<close>

definition runEvent :: "string list \<Rightarrow> nat \<Rightarrow> Cell list \<Rightarrow> nat \<Rightarrow> SequencerEvent" where
  "runEvent N i row s =
     \<lparr>step = s, durationSteps = runLength row s 1, evNote = js_index N i,
       evVelocity = nullish (velocity (row ! s)) 0.8\<rparr>"

section \<open>Tracks and toggling\<close>

text \<open>
  \<^verbatim>\<open>interface TrackState { id; name; instrument; pattern; volume; muted }\<close>; the first two
  fields are \<open>trackId\<close> and \<open>trackName\<close> here. An instrument id is the string it is in
  the source.
\<close>

record TrackState =
  trackId :: string
  trackName :: string
  instrument :: string
  pattern :: TrackPattern
  volume :: real
  muted :: bool

text \<open>\<^verbatim>\<open>xs.map((x, i) => f(x, i))\<close>.\<close>

definition mapIndexed :: "('a \<Rightarrow> nat \<Rightarrow> 'b) \<Rightarrow> 'a list \<Rightarrow> 'b list" where
  "mapIndexed f xs = map (\<lambda>(i, x). f x i) (enumerate 0 xs)"

text \<open>
  The cell callback of \<^verbatim>\<open>toggleCell\<close>. \<^verbatim>\<open>row\<close> and \<^verbatim>\<open>step\<close> are JavaScript numbers
  compared with \<^verbatim>\<open>!==\<close> against array indices: an integer here, which may be negative
  or beyond the array (a fraction equals no index either). Both branches of the
  conditional on \<^verbatim>\<open>nextActive\<close> are the same expression in the source.
\<close>

definition toggledCell :: "bool option \<Rightarrow> Cell \<Rightarrow> Cell" where
  "toggledCell forceState cell =
     (let nextActive = nullish forceState (\<not> active cell);
          velocity' = (if nextActive then nullish (velocity cell) 0.8
                       else nullish (velocity cell) 0.8)
      in cell\<lparr>active := nextActive, velocity := Some velocity'\<rparr>)"

text \<open>
  \<^verbatim>\<open>toggleCell(trackId, row, step, forceState)\<close>: the function handed to \<^verbatim>\<open>setTracks\<close>,
  from the previous track list to the next one. The source has no \<^verbatim>\<open>throw\<close> and no
  bounds check; every operation in it is defined on every input.
\<close>

definition toggleCell ::
  "string \<Rightarrow> int \<Rightarrow> int \<Rightarrow> bool option \<Rightarrow> TrackState list \<Rightarrow> TrackState list"
where
  "toggleCell tid row stp forceState prev =
     map (\<lambda>track.
        if trackId track \<noteq> tid then track
        else track\<lparr>pattern :=
          mapIndexed (\<lambda>noteRow rowIdx.
            mapIndexed (\<lambda>cell stepIdx.
              if int rowIdx \<noteq> row \<or> int stepIdx \<noteq> stp then cell
              else toggledCell forceState cell) noteRow) (pattern track)\<rparr>) prev"

section \<open>Playback encoder\<close>

text \<open>
  \<^verbatim>\<open>stepToTransportTime\<close>; the source renders the three numbers as the string
  \<^verbatim>\<open>measure:beat:subdivision\<close>, the model keeps the triple.
\<close>

definition stepToTransportTime :: "nat \<Rightarrow> nat \<times> nat \<times> nat" where
  "stepToTransportTime stp =
     (let STEPS_PER_BAR = 16; stepsPerBeat = 4;
          measure = stp div STEPS_PER_BAR;
          remainder = stp mod STEPS_PER_BAR;
          beat = remainder div stepsPerBeat;
          subdivision = remainder mod stepsPerBeat
      in (measure, beat, subdivision))"

text \<open>The synthesizer classes \<^verbatim>\<open>buildInstrument\<close> chooses between.\<close>

datatype SynthKind = PolyTriangle | PolySquare | FMSynth | MonoSynth | PlainSynth

definition buildInstrument :: "string \<Rightarrow> SynthKind" where
  "buildInstrument ins =
     (if ins = ''dream-pad'' then PolyTriangle
      else if ins = ''chiptune'' then PolySquare
      else if ins = ''fm-keys'' then FMSynth
      else if ins = ''bass'' then MonoSynth
      else PlainSynth)"

record Synth =
  kind :: SynthKind
  synthVolume :: real

text \<open>
  A \<^verbatim>\<open>Tone.Part\<close>: the scheduled pairs, the synth its callback triggers, and the loop
  length in bars.
\<close>

record Part =
  partEvents :: "((nat \<times> nat \<times> nat) \<times> SequencerEvent) list"
  partSynth :: Synth
  partLoopEnd :: nat

text \<open>
  \<^verbatim>\<open>toneRef.current\<close> with the transport: \<^verbatim>\<open>parts\<close> is an array, \<^verbatim>\<open>synths\<close> a
  \<^verbatim>\<open>Map\<close> from track id to synth.
\<close>

record Audio =
  parts :: "Part list"
  synths :: "string \<rightharpoonup> Synth"
  bpm :: real
  swing :: real
  loopEnd :: nat
  running :: bool

text \<open>The body of \<^verbatim>\<open>tracks.forEach((track) => ...)\<close> in \<^verbatim>\<open>setupPlayback\<close>.\<close>

definition scheduleTrack :: "string list \<Rightarrow> nat \<Rightarrow> Audio \<Rightarrow> TrackState \<Rightarrow> Audio" where
  "scheduleTrack NOTE_NAMES loopBars audio track =
     (if muted track then audio
      else
        (let synth = \<lparr>kind = buildInstrument (instrument track), synthVolume = volume track\<rparr>;
             audio1 = audio\<lparr>synths := (synths audio)(trackId track \<mapsto> synth)\<rparr>;
             events = extractTrackEvents NOTE_NAMES (pattern track)
         in if events = [] then audio1
            else audio1\<lparr>parts := parts audio1 @
                   [\<lparr>partEvents = map (\<lambda>event. (stepToTransportTime (step event), event)) events,
                     partSynth = synth, partLoopEnd = loopBars\<rparr>]\<rparr>))"

datatype error = TypeError | PlaybackInitError

text \<open>
  \<^verbatim>\<open>setupPlayback(keepTransportRunning)\<close>. \<open>engineOk\<close> says whether loading and
  starting the audio engine succeeded (otherwise the source's \<^verbatim>\<open>catch\<close> runs, before
  anything was changed); \<open>TOTAL_STEPS\<close> is imported from the module that is not at
  hand. \<^verbatim>\<open>Math.ceil(TOTAL_STEPS / 16)\<close> is written with integer division.
\<close>

definition setupPlayback ::
  "bool \<Rightarrow> string list \<Rightarrow> nat \<Rightarrow> real \<Rightarrow> real \<Rightarrow> TrackState list \<Rightarrow> bool \<Rightarrow> Audio
   \<Rightarrow> error + Audio"
where
  "setupPlayback engineOk NOTE_NAMES TOTAL_STEPS tempo swingPct tracks keepTransportRunning audio =
     (if \<not> engineOk then Inl PlaybackInitError
      else
        (let loopBars = (TOTAL_STEPS + 15) div 16;
             audio1 = audio\<lparr>bpm := tempo, swing := swingPct / 100, loopEnd := loopBars\<rparr>;
             audio2 = audio1\<lparr>parts := [], synths := Map.empty\<rparr>;
             audio3 = foldl (scheduleTrack NOTE_NAMES loopBars) audio2 tracks
         in Inr (if \<not> keepTransportRunning then audio3\<lparr>running := True\<rparr> else audio3)))"

section \<open>MIDI encoder\<close>

text \<open>
  The result of an arithmetic operation on finite doubles: a finite value, or an
  infinity when the rounded result is beyond the largest double.
\<close>

datatype 'a number = Finite 'a | PosInfinity | NegInfinity

text \<open>The power of two with an integer exponent.\<close>

definition pow2 :: "int \<Rightarrow> real" where
  "pow2 k = (if 0 \<le> k then 2 ^ nat k else 1 / 2 ^ nat (- k))"

text \<open>
  The binary exponent a double of magnitude \<open>a\<close> has: the least \<open>e\<close> from -1022 on with
  \<open>a < 2 ^ (e + 1)\<close>, and 1023 at most; magnitudes below \<open>2 ^ -1022\<close> are subnormal and
  share the exponent -1022.
\<close>

fun binadeFrom :: "real \<Rightarrow> int \<Rightarrow> nat \<Rightarrow> int" where
  "binadeFrom a e 0 = e"
| "binadeFrom a e (Suc fuel) = (if a < pow2 (e + 1) then e else binadeFrom a (e + 1) fuel)"

definition exponent :: "real \<Rightarrow> int" where
  "exponent a = binadeFrom a (- 1022) 2045"

text \<open>The nearest integer, a tie going to the even one.\<close>

definition roundHalfEven :: "real \<Rightarrow> int" where
  "roundHalfEven r =
     (let f = \<lfloor>r\<rfloor>; d = r - of_int f
      in if d < 1 / 2 then f else if 1 / 2 < d then f + 1 else if even f then f else f + 1)"

text \<open>
  IEEE 754 binary64 rounding of an exact result, to nearest with ties to even: doubles
  of exponent \<open>e\<close> are the multiples of \<open>2 ^ (e - 52)\<close>, and a result that rounds to
  \<open>2 ^ 1024\<close> or beyond is an infinity.
\<close>

definition toDouble :: "real \<Rightarrow> real number" where
  "toDouble x =
     (let q = pow2 (exponent \<bar>x\<bar> - 52); y = of_int (roundHalfEven (x / q)) * q
      in if 2 ^ 1024 \<le> y then PosInfinity
         else if y \<le> - (2 ^ 1024) then NegInfinity
         else Finite y)"

text \<open>The product \<^verbatim>\<open>a * b\<close> of two finite doubles: the exact product, rounded.\<close>

definition js_times :: "real \<Rightarrow> real \<Rightarrow> real number" where
  "js_times a b = toDouble (a * b)"

text \<open>\<^verbatim>\<open>Math.round\<close>: the nearest integer, a tie going up; an infinity stays.\<close>

fun Math_round :: "real number \<Rightarrow> int number" where
  "Math_round (Finite x) = Finite \<lfloor>x + 1 / 2\<rfloor>"
| "Math_round PosInfinity = PosInfinity"
| "Math_round NegInfinity = NegInfinity"

datatype SubType = On | Off

text \<open>
  The objects built by the \<^verbatim>\<open>flatMap\<close> of \<^verbatim>\<open>handleExportMidi\<close>:
  \<^verbatim>\<open>{ tick, type, note, velocity }\<close>.
\<close>

record MidiSub =
  tick :: int
  subType :: SubType
  subNote :: "string option"
  subVelocity :: "int number"

definition ticksPerBeat :: int where
  "ticksPerBeat = 128"

definition ticksPerStep :: int where
  "ticksPerStep = ticksPerBeat div 4"

definition expandEvent :: "SequencerEvent \<Rightarrow> MidiSub list" where
  "expandEvent event =
     (let startTick = int (step event) * ticksPerStep;
          durationTicks = int (durationSteps event) * ticksPerStep
      in [\<lparr>tick = startTick, subType = On, subNote = evNote event,
            subVelocity = Math_round (js_times (evVelocity event) 127)\<rparr>,
          \<lparr>tick = startTick + durationTicks, subType = Off, subNote = evNote event,
            subVelocity = Finite 0\<rparr>])"

definition flatMap :: "('a \<Rightarrow> 'b list) \<Rightarrow> 'a list \<Rightarrow> 'b list" where
  "flatMap f xs = concat (map f xs)"

text \<open>The comparator handed to \<^verbatim>\<open>events.sort\<close>.\<close>

definition compareSub :: "MidiSub \<Rightarrow> MidiSub \<Rightarrow> int" where
  "compareSub a b =
     (if tick a = tick b then
        (if subType a = subType b then 0
         else if subType a = Off then - 1 else 1)
      else tick a - tick b)"

text \<open>
  \<^verbatim>\<open>Array.prototype.sort\<close> is a stable sort by the comparator (ECMAScript 2019): an
  element stays before the later elements it compares equal to. Insertion from the
  right computes that order.
\<close>

fun insertSorted :: "('a \<Rightarrow> 'a \<Rightarrow> int) \<Rightarrow> 'a \<Rightarrow> 'a list \<Rightarrow> 'a list" where
  "insertSorted cmp x [] = [x]"
| "insertSorted cmp x (y # ys) =
     (if cmp x y \<le> 0 then x # y # ys else y # insertSorted cmp x ys)"

fun array_sort :: "('a \<Rightarrow> 'a \<Rightarrow> int) \<Rightarrow> 'a list \<Rightarrow> 'a list" where
  "array_sort cmp [] = []"
| "array_sort cmp (x # xs) = insertSorted cmp x (array_sort cmp xs)"

text \<open>
  \<^verbatim>\<open>String.prototype.toLowerCase\<close> on the letters A to Z (a string is a list of
  bytes here), and \<^verbatim>\<open>String.prototype.replace\<close> with a string pattern, which
  replaces the first occurrence.
\<close>

definition lowerChar :: "char \<Rightarrow> char" where
  "lowerChar c =
     (let n = (of_char c :: nat) in if 65 \<le> n \<and> n \<le> 90 then char_of (n + 32) else c)"

definition toLowerCase :: "string \<Rightarrow> string" where
  "toLowerCase s = map lowerChar s"

fun replaceFirst :: "string \<Rightarrow> string \<Rightarrow> string \<Rightarrow> string" where
  "replaceFirst pat rep [] = (if pat = [] then rep else [])"
| "replaceFirst pat rep (c # cs) =
     (if take (length pat) (c # cs) = pat then rep @ drop (length pat) (c # cs)
      else c # replaceFirst pat rep cs)"

text \<open>
  \<^verbatim>\<open>noteLabelToMidi\<close>; calling \<^verbatim>\<open>toLowerCase\<close> on \<^verbatim>\<open>undefined\<close> throws a TypeError.
\<close>

fun noteLabelToMidi :: "string option \<Rightarrow> error + string" where
  "noteLabelToMidi None = Inl TypeError"
| "noteLabelToMidi (Some label) = Inr (replaceFirst ''#'' ''#'' (toLowerCase label))"

text \<open>The calls the encoder makes on a track of the MIDI writer, in order.\<close>

datatype MidiCall =
    SetTempo real
  | SetInstrument nat nat
  | NoteOn nat string int "int number"
  | NoteOff nat string int "int number"

text \<open>
  \<^verbatim>\<open>let lastTick = 0; events.forEach((event) => ...)\<close>: \<open>calls\<close> are the calls made on
  the track so far. An exception ends the loop.
\<close>

fun emitEvents :: "int \<Rightarrow> MidiCall list \<Rightarrow> MidiSub list \<Rightarrow> error + MidiCall list" where
  "emitEvents lastTick calls [] = Inr calls"
| "emitEvents lastTick calls (event # rest) =
     (let delta = tick event - lastTick in
      case noteLabelToMidi (subNote event) of
        Inl e \<Rightarrow> Inl e
      | Inr label \<Rightarrow>
          emitEvents (tick event)
            (calls @ [if subType event = On
                      then NoteOn 0 label delta (subVelocity event)
                      else NoteOff 0 label delta (subVelocity event)])
            rest)"

definition instrumentPrograms :: "string \<rightharpoonup> nat" where
  "instrumentPrograms =
     [''dream-pad'' \<mapsto> 89, ''chiptune'' \<mapsto> 81, ''fm-keys'' \<mapsto> 6, ''bass'' \<mapsto> 34]"

text \<open>The sorted sub-event list of a track (the array \<^verbatim>\<open>events\<close> after \<^verbatim>\<open>events.sort\<close>).\<close>

definition trackSubEvents :: "string list \<Rightarrow> TrackState \<Rightarrow> MidiSub list" where
  "trackSubEvents NOTE_NAMES track =
     array_sort compareSub
       (flatMap expandEvent (extractTrackEvents NOTE_NAMES (pattern track)))"

text \<open>The body of \<^verbatim>\<open>tracks.forEach((track, index) => ...)\<close> in \<^verbatim>\<open>handleExportMidi\<close>.\<close>

definition exportTrack :: "string list \<Rightarrow> real \<Rightarrow> nat \<Rightarrow> TrackState \<Rightarrow> error + MidiCall list" where
  "exportTrack NOTE_NAMES tempo index track =
     emitEvents 0
       ((if index = 0 then [SetTempo tempo] else []) @
        [SetInstrument 0 (nullish (instrumentPrograms (instrument track)) 89)])
       (trackSubEvents NOTE_NAMES track)"

text \<open>What a call hands to \<^verbatim>\<open>noteOn\<close>/\<^verbatim>\<open>noteOff\<close>: the delta and the label.\<close>

fun callDelta :: "MidiCall \<Rightarrow> int option" where
  "callDelta (NoteOn ch label delta vel) = Some delta"
| "callDelta (NoteOff ch label delta vel) = Some delta"
| "callDelta other = None"

fun callLabel :: "MidiCall \<Rightarrow> string option" where
  "callLabel (NoteOn ch label delta vel) = Some label"
| "callLabel (NoteOff ch label delta vel) = Some label"
| "callLabel other = None"

definition noteDeltas :: "MidiCall list \<Rightarrow> int list" where
  "noteDeltas calls = List.map_filter callDelta calls"

definition noteLabels :: "MidiCall list \<Rightarrow> string list" where
  "noteLabels calls = List.map_filter callLabel calls"

text \<open>
  Decoding delta times: the running sums of the deltas, from a cursor.
\<close>

fun decodeDeltas :: "int \<Rightarrow> int list \<Rightarrow> int list" where
  "decodeDeltas cursor [] = []"
| "decodeDeltas cursor (d # ds) = (cursor + d) # decodeDeltas (cursor + d) ds"

section \<open>Observations used in the statements\<close>

text \<open>The order the comparator stands for: \<open>a\<close> may come before \<open>b\<close>.\<close>

definition subLe :: "MidiSub \<Rightarrow> MidiSub \<Rightarrow> bool" where
  "subLe a b \<longleftrightarrow> compareSub a b \<le> 0"

text \<open>
  The delta-time form of a tick sequence as the specification words it: a cursor, each
  delta the tick minus the cursor, the cursor then moved to that tick.
\<close>

fun deltaEncode :: "int \<Rightarrow> int list \<Rightarrow> int list" where
  "deltaEncode cursor [] = []"
| "deltaEncode cursor (t # ts) = (t - cursor) # deltaEncode t ts"

text \<open>Whether a call on the writer is a \<^verbatim>\<open>noteOn\<close> or a \<^verbatim>\<open>noteOff\<close>.\<close>

fun callType :: "MidiCall \<Rightarrow> SubType option" where
  "callType (NoteOn ch label delta vel) = Some On"
| "callType (NoteOff ch label delta vel) = Some Off"
| "callType other = None"

text \<open>A track that is not muted and has at least one event.\<close>

definition sounding :: "string list \<Rightarrow> TrackState \<Rightarrow> bool" where
  "sounding N track \<longleftrightarrow> \<not> muted track \<and> extractTrackEvents N (pattern track) \<noteq> []"

section \<open>Example inputs\<close>

text \<open>A row of eight cells, active at steps 2, 3, 4 and 7, for the examples.\<close>

definition exampleRow :: "Cell list" where
  "exampleRow =
     map (\<lambda>(a, v). \<lparr>active = a, velocity = Some v\<rparr>)
       [(False, 0.8), (False, 0.8), (True, 0.5), (True, 0.9), (True, 1),
        (False, 0.8), (False, 0.8), (True, 0.25)]"

text \<open>An unmuted track with that row as its pattern.\<close>

definition exampleTrack :: TrackState where
  "exampleTrack =
     \<lparr>trackId = ''t1'', trackName = ''Track 1'', instrument = ''dream-pad'',
      pattern = [exampleRow], volume = - 8, muted = False\<rparr>"

text \<open>Two events of one note, the second starting at the step where the first ends.\<close>

definition tiedEvents :: "SequencerEvent list" where
  "tiedEvents =
     [\<lparr>step = 4, durationSteps = 2, evNote = Some ''C4'', evVelocity = 0.5\<rparr>,
      \<lparr>step = 6, durationSteps = 2, evNote = Some ''C4'', evVelocity = 0.5\<rparr>]"

text \<open>An unmuted track without an active cell.\<close>

definition quietTrack :: TrackState where
  "quietTrack =
     \<lparr>trackId = ''t2'', trackName = ''Track 2'', instrument = ''dream-pad'',
      pattern = [[\<lparr>active = False, velocity = Some 0.8\<rparr>, \<lparr>active = False, velocity = Some 0.8\<rparr>]],
      volume = - 8, muted = False\<rparr>"

text \<open>A muted track with an active pattern.\<close>

definition mutedTrack :: TrackState where
  "mutedTrack = exampleTrack\<lparr>trackId := ''t3'', trackName := ''Track 3'', muted := True\<rparr>"



text \<open>The audio state before any playback.\<close>

definition idleAudio :: Audio where
  "idleAudio =
     \<lparr>parts = [], synths = Map.empty, bpm = 120, swing = 0, loopEnd = 0, running = False\<rparr>"

section \<open>Properties of the event extractor\<close>

lemma runLength_ge: "len \<le> runLength row s len"
  by (induction row s len rule: runLength.induct) (subst runLength.simps, auto)

lemma runLength_le: "s + len \<le> length row \<Longrightarrow> s + runLength row s len \<le> length row"
  by (induction row s len rule: runLength.induct) (subst runLength.simps, auto)

lemma runLength_active:
  "len \<le> k \<Longrightarrow> k < runLength row s len \<Longrightarrow> active (row ! (s + k))"
proof (induction row s len rule: runLength.induct)
  case (1 row s len)
  show ?case
  proof (cases "s + len < length row \<and> active (row ! (s + len))")
    case True
    then have eq: "runLength row s len = runLength row s (len + 1)"
      by (subst runLength.simps) simp
    show ?thesis
    proof (cases "k = len")
      case True
      with \<open>s + len < length row \<and> active (row ! (s + len))\<close> show ?thesis by simp
    next
      case False
      with "1.prems" have "len + 1 \<le> k" by simp
      moreover from "1.prems" eq have "k < runLength row s (len + 1)" by simp
      ultimately show ?thesis using "1.IH" True by blast
    qed
  next
    case False
    then have "runLength row s len = len"
      by (subst runLength.simps) auto
    with "1.prems" show ?thesis by simp
  qed
qed

lemma runLength_stop:
  "s + runLength row s len < length row \<Longrightarrow> \<not> active (row ! (s + runLength row s len))"
proof (induction row s len rule: runLength.induct)
  case (1 row s len)
  show ?case
  proof (cases "s + len < length row \<and> active (row ! (s + len))")
    case True
    then have eq: "runLength row s len = runLength row s (len + 1)"
      by (subst runLength.simps) simp
    with "1.IH" True "1.prems" show ?thesis by simp
  next
    case False
    then have eq: "runLength row s len = len"
      by (subst runLength.simps) auto
    with False "1.prems" show ?thesis by auto
  qed
qed

lemma scanRow_end: "\<not> s < length row \<Longrightarrow> scanRow N i row s acc = acc"
  by (subst scanRow.simps) simp

lemma scanRow_inactive:
  "s < length row \<Longrightarrow> \<not> active (row ! s) \<Longrightarrow>
   scanRow N i row s acc = scanRow N i row (s + 1) acc"
  by (subst scanRow.simps) simp

lemma scanRow_active:
  "s < length row \<Longrightarrow> active (row ! s) \<Longrightarrow>
   scanRow N i row s acc =
   scanRow N i row (s + runLength row s 1) (acc @ [runEvent N i row s])"
  by (subst scanRow.simps) (simp add: runEvent_def)

lemma scanRow_append:
  "scanRow N i row s acc = acc @ scanRow N i row s []"
proof (induction "length row - s" arbitrary: s acc rule: less_induct)
  case less
  show ?case
  proof (cases "s < length row")
    case False
    then show ?thesis by (simp add: scanRow_end)
  next
    case True
    show ?thesis
    proof (cases "active (row ! s)")
      case False
      have "length row - (s + 1) < length row - s" using True by simp
      from less [OF this, of acc] show ?thesis
        by (simp only: scanRow_inactive [OF True False])
    next
      case act: True
      let ?e = "runEvent N i row s"
      let ?s' = "s + runLength row s 1"
      have dec: "length row - ?s' < length row - s"
        using True runLength_ge [of 1 row s] by simp
      have c: "scanRow N i row ?s' (acc @ [?e]) = (acc @ [?e]) @ scanRow N i row ?s' []"
        by (rule less [OF dec])
      have d: "scanRow N i row ?s' [?e] = [?e] @ scanRow N i row ?s' []"
        by (rule less [OF dec])
      show ?thesis
        unfolding scanRow_active [OF True act, of N i acc]
          scanRow_active [OF True act, of N i "[]"] append_Nil c d
        by simp
    qed
  qed
qed

lemma scanRow_active_Cons:
  "s < length row \<Longrightarrow> active (row ! s) \<Longrightarrow>
   scanRow N i row s [] = runEvent N i row s # scanRow N i row (s + runLength row s 1) []"
  using scanRow_active [of s row N i "[]"]
    scanRow_append [of N i row "s + runLength row s 1" "[runEvent N i row s]"]
  by simp

lemma runLength_run:
  assumes "s < length row" "active (row ! s)" "s \<le> k" "k < s + runLength row s 1"
  shows "active (row ! k)"
proof (cases "k = s")
  case True
  with assms show ?thesis by simp
next
  case False
  with assms have "1 \<le> k - s" "k - s < runLength row s 1" by auto
  from runLength_active [OF this] assms show ?thesis by simp
qed

lemma maximalRun_runLength:
  assumes "s < length row" "active (row ! s)" "s = 0 \<or> \<not> active (row ! (s - 1))"
  shows "maximalRun row s (runLength row s 1)"
  unfolding maximalRun_def
proof (intro conjI)
  show "1 \<le> runLength row s 1" by (rule runLength_ge)
  show "s + runLength row s 1 \<le> length row" using assms(1) by (intro runLength_le) simp
  show "\<forall>k\<in>{s..<s + runLength row s 1}. active (row ! k)"
    using runLength_run [OF assms(1,2)] by simp
  show "s = 0 \<or> \<not> active (row ! (s - 1))" by (rule assms(3))
  show "s + runLength row s 1 = length row \<or> \<not> active (row ! (s + runLength row s 1))"
    using runLength_stop [of s row 1] runLength_le [of s 1 row] assms(1) by fastforce
qed

lemma maximalRun_after:
  assumes "s < length row" "active (row ! s)"
    and m: "maximalRun row s' d" and "s \<le> s'"
  shows "(s' = s \<and> d = runLength row s 1) \<or> s + runLength row s 1 \<le> s'"
proof -
  let ?len = "runLength row s 1"
  have run: "\<And>k. s \<le> k \<Longrightarrow> k < s + ?len \<Longrightarrow> active (row ! k)"
    using runLength_run [OF assms(1,2)] by simp
  have le: "s + ?len \<le> length row" using assms(1) by (intro runLength_le) simp
  have stop: "s + ?len = length row \<or> \<not> active (row ! (s + ?len))"
    using runLength_stop [of s row 1] le by fastforce
  from m have d1: "1 \<le> d" and dle: "s' + d \<le> length row"
    and dact: "\<And>k. s' \<le> k \<Longrightarrow> k < s' + d \<Longrightarrow> active (row ! k)"
    and dl: "s' = 0 \<or> \<not> active (row ! (s' - 1))"
    and dr: "s' + d = length row \<or> \<not> active (row ! (s' + d))"
    by (auto simp: maximalRun_def)
  show ?thesis
  proof (cases "s' = s")
    case True
    have "d = ?len"
    proof (rule ccontr)
      assume ne: "d \<noteq> ?len"
      show False
      proof (cases "d < ?len")
        case True
        then have "active (row ! (s + d))" using run [of "s + d"] by simp
        moreover have "s + d < length row" using True le by simp
        ultimately show False using dr \<open>s' = s\<close> by simp
      next
        case False
        with ne have lt: "?len < d" by simp
        then have "active (row ! (s + ?len))" using dact [of "s + ?len"] \<open>s' = s\<close> by simp
        moreover have "s + ?len < length row" using lt dle \<open>s' = s\<close> by simp
        ultimately show False using stop by simp
      qed
    qed
    with True show ?thesis by simp
  next
    case False
    with \<open>s \<le> s'\<close> have lt: "s < s'" by simp
    have "s + ?len \<le> s'"
    proof (rule ccontr)
      assume "\<not> s + ?len \<le> s'"
      then have "active (row ! (s' - 1))" using run [of "s' - 1"] lt by simp
      with dl lt show False by simp
    qed
    then show ?thesis by simp
  qed
qed

lemma maximalRun_start: "maximalRun row s d \<Longrightarrow> s < length row \<and> active (row ! s)"
proof -
  assume m: "maximalRun row s d"
  then have "1 \<le> d" "s + d \<le> length row" "\<forall>k\<in>{s..<s + d}. active (row ! k)"
    by (simp_all add: maximalRun_def)
  then show ?thesis by auto
qed

lemma scanRow_spans:
  assumes "s \<le> length row"
    and "s = 0 \<or> \<not> active (row ! (s - 1)) \<or> s = length row \<or> \<not> active (row ! s)"
  shows "set (map span (scanRow N i row s [])) = {(s', d). maximalRun row s' d \<and> s \<le> s'}"
  using assms
proof (induction "length row - s" arbitrary: s rule: less_induct)
  case less
  show ?case
  proof (cases "s < length row")
    case False
    have "{(s', d). maximalRun row s' d \<and> s \<le> s'} = {}"
      using False maximalRun_start [of row] by fastforce
    with False show ?thesis by (simp add: scanRow_end)
  next
    case True
    show ?thesis
    proof (cases "active (row ! s)")
      case False
      have dec: "length row - (s + 1) < length row - s" using True by simp
      have "set (map span (scanRow N i row (s + 1) [])) =
            {(s', d). maximalRun row s' d \<and> s + 1 \<le> s'}"
        using less.hyps [OF dec] True False by simp
      moreover have "{(s', d). maximalRun row s' d \<and> s + 1 \<le> s'} =
            {(s', d). maximalRun row s' d \<and> s \<le> s'}"
        using False maximalRun_start [of row] by (fastforce simp: le_less)
      ultimately show ?thesis by (simp only: scanRow_inactive [OF True False])
    next
      case act: True
      let ?len = "runLength row s 1"
      have left: "s = 0 \<or> \<not> active (row ! (s - 1))" using less.prems(2) True act by auto
      have mr: "maximalRun row s ?len" by (rule maximalRun_runLength [OF True act left])
      have ge1: "1 \<le> ?len" by (rule runLength_ge)
      have dec: "length row - (s + ?len) < length row - s" using True ge1 by simp
      have le: "s + ?len \<le> length row" using True by (intro runLength_le) simp
      have stop: "s + ?len = length row \<or> \<not> active (row ! (s + ?len))"
        using runLength_stop [of s row 1] le by fastforce
      have ih: "set (map span (scanRow N i row (s + ?len) [])) =
            {(s', d). maximalRun row s' d \<and> s + ?len \<le> s'}"
        using less.hyps [OF dec le] stop by blast
      have eq: "{(s', d). maximalRun row s' d \<and> s \<le> s'} =
            insert (s, ?len) {(s', d). maximalRun row s' d \<and> s + ?len \<le> s'}"
        using mr maximalRun_after [OF True act] by fastforce
      have "set (map span (scanRow N i row s [])) =
            insert (s, ?len) (set (map span (scanRow N i row (s + ?len) [])))"
        unfolding scanRow_active_Cons [OF True act] by (simp add: span_def runEvent_def)
      also have "\<dots> = insert (s, ?len) {(s', d). maximalRun row s' d \<and> s + ?len \<le> s'}"
        by (simp only: ih)
      finally show ?thesis by (simp only: eq)
    qed
  qed
qed

lemma scanRow_bounds:
  "e \<in> set (scanRow N i row s []) \<Longrightarrow>
   s \<le> step e \<and> step e < length row \<and> active (row ! step e) \<and> e = runEvent N i row (step e)"
proof (induction "length row - s" arbitrary: s rule: less_induct)
  case less
  show ?case
  proof (cases "s < length row")
    case False
    with less.prems show ?thesis by (simp add: scanRow_end)
  next
    case True
    show ?thesis
    proof (cases "active (row ! s)")
      case False
      have dec: "length row - (s + 1) < length row - s" using True by simp
      from less.prems have "e \<in> set (scanRow N i row (s + 1) [])"
        by (simp only: scanRow_inactive [OF True False])
      from less.hyps [OF dec this] show ?thesis by simp
    next
      case act: True
      let ?len = "runLength row s 1"
      have ge1: "1 \<le> ?len" by (rule runLength_ge)
      have dec: "length row - (s + ?len) < length row - s" using True ge1 by simp
      from less.prems have "e = runEvent N i row s \<or> e \<in> set (scanRow N i row (s + ?len) [])"
        by (simp add: scanRow_active_Cons [OF True act])
      then show ?thesis
      proof
        assume "e = runEvent N i row s"
        then have "step e = s" by (simp add: runEvent_def)
        with \<open>e = runEvent N i row s\<close> True act show ?thesis by simp
      next
        assume "e \<in> set (scanRow N i row (s + ?len) [])"
        from less.hyps [OF dec this] show ?thesis by simp
      qed
    qed
  qed
qed

lemma scanRow_sorted:
  "sorted_wrt (\<lambda>a b. step a < step b \<and> step a + durationSteps a \<le> step b)
     (scanRow N i row s [])"
proof (induction "length row - s" arbitrary: s rule: less_induct)
  case less
  show ?case
  proof (cases "s < length row")
    case False
    then show ?thesis by (simp add: scanRow_end)
  next
    case True
    show ?thesis
    proof (cases "active (row ! s)")
      case False
      have dec: "length row - (s + 1) < length row - s" using True by simp
      from less.hyps [OF dec] show ?thesis
        by (simp only: scanRow_inactive [OF True False])
    next
      case act: True
      let ?len = "runLength row s 1"
      have ge1: "1 \<le> ?len" by (rule runLength_ge)
      have dec: "length row - (s + ?len) < length row - s" using True ge1 by simp
      have "\<forall>e \<in> set (scanRow N i row (s + ?len) []). s + ?len \<le> step e"
        using scanRow_bounds by blast
      with less.hyps [OF dec] ge1 show ?thesis
        by (simp add: scanRow_active_Cons [OF True act] runEvent_def) fastforce
    qed
  qed
qed

lemma forEachRow_concat:
  "forEachRow N rows i acc =
   acc @ concat (map (\<lambda>(j, row). rowEvents N j row) (enumerate i rows))"
proof (induction rows arbitrary: i acc)
  case Nil
  show ?case by simp
next
  case (Cons row rows)
  have "forEachRow N (row # rows) i acc = forEachRow N rows (i + 1) (scanRow N i row 0 acc)"
    by simp
  also have "\<dots> = scanRow N i row 0 acc @
      concat (map (\<lambda>(j, row). rowEvents N j row) (enumerate (i + 1) rows))"
    by (rule Cons.IH)
  also have "scanRow N i row 0 acc = acc @ rowEvents N i row"
    unfolding rowEvents_def by (rule scanRow_append)
  finally show ?case by simp
qed

lemma enumerate_nth: "enumerate 0 xs = map (\<lambda>j. (j, xs ! j)) [0..<length xs]"
  by (rule nth_equalityI) (simp_all add: nth_enumerate_eq)

lemma extractTrackEvents_rows:
  "extractTrackEvents N pat =
   concat (map (\<lambda>j. rowEvents N j (pat ! j)) [0..<length pat])"
  unfolding extractTrackEvents_def forEachRow_concat enumerate_nth
  by (simp add: comp_def)

lemma scanRow_all_inactive:
  "(\<And>k. s \<le> k \<Longrightarrow> k < length row \<Longrightarrow> \<not> active (row ! k)) \<Longrightarrow>
   scanRow N i row s acc = acc"
proof (induction "length row - s" arbitrary: s rule: less_induct)
  case less
  show ?case
  proof (cases "s < length row")
    case False
    then show ?thesis by (simp add: scanRow_end)
  next
    case True
    have na: "\<not> active (row ! s)" using less.prems [of s] True by simp
    have dec: "length row - (s + 1) < length row - s" using True by simp
    have "scanRow N i row (s + 1) acc = acc"
      by (rule less.hyps [OF dec]) (simp add: less.prems)
    then show ?thesis by (simp only: scanRow_inactive [OF True na])
  qed
qed

lemma runLength_step:
  "k = s + len \<Longrightarrow> k < length row \<Longrightarrow> active (row ! k) \<Longrightarrow> len' = len + 1 \<Longrightarrow>
   runLength row s len = runLength row s len'"
  by (subst runLength.simps) simp

lemma runLength_done:
  "k = s + len \<Longrightarrow> \<not> (k < length row \<and> active (row ! k)) \<Longrightarrow> runLength row s len = len"
  by (subst runLength.simps) auto

lemma rowEvents_example:
  assumes len: "8 \<le> length row"
    and act: "\<And>k. k < length row \<Longrightarrow> active (row ! k) \<longleftrightarrow> k \<in> {2, 3, 4, 7}"
  shows "map span (rowEvents N i row) = [(2, 3), (7, 1)]"
proof -
  from len have ne: "row \<noteq> []" by auto
  have a: "active (row ! 2)" "active (row ! 3)" "active (row ! 4)" "active (row ! 7)"
    and n: "\<not> active (row ! 0)" "\<not> active (row ! 1)" "\<not> active (row ! 5)"
      "\<not> active (row ! 6)"
    using len ne act [of 0] act [of 1] act [of 2] act [of 3] act [of 4] act [of 5]
      act [of 6] act [of 7]
    by auto
  have "runLength row 2 1 = runLength row 2 2"
    by (rule runLength_step [where k = 3]) (use a len ne in simp_all)
  also have "\<dots> = runLength row 2 3"
    by (rule runLength_step [where k = 4]) (use a len ne in simp_all)
  also have "\<dots> = 3"
    by (rule runLength_done [where k = 5]) (use n in simp_all)
  finally have r2: "runLength row 2 1 = 3" .
  have r7: "runLength row 7 1 = 1"
    by (rule runLength_done [where k = 8]) (use act [of 8] in auto)
  have "scanRow N i row 0 [] = scanRow N i row (0 + 1) []"
    by (rule scanRow_inactive) (use n len ne in simp_all)
  also have "\<dots> = scanRow N i row (1 + 1) []"
    unfolding add_0 by (rule scanRow_inactive) (use n len ne in simp_all)
  also have "\<dots> = runEvent N i row 2 # scanRow N i row (2 + runLength row 2 1) []"
    unfolding one_add_one by (rule scanRow_active_Cons) (use a len ne in simp_all)
  also have "scanRow N i row (2 + runLength row 2 1) [] = scanRow N i row 5 []"
    unfolding r2 by simp
  also have "\<dots> = scanRow N i row (5 + 1) []"
    by (rule scanRow_inactive) (use n len ne in simp_all)
  also have "\<dots> = scanRow N i row 6 []" by simp
  also have "\<dots> = scanRow N i row (6 + 1) []"
    by (rule scanRow_inactive) (use n len ne in simp_all)
  also have "\<dots> = scanRow N i row 7 []" by simp
  also have "\<dots> = runEvent N i row 7 # scanRow N i row (7 + runLength row 7 1) []"
    by (rule scanRow_active_Cons) (use a len ne in simp_all)
  also have "scanRow N i row (7 + runLength row 7 1) [] = scanRow N i row 8 []"
    unfolding r7 by simp
  also have "\<dots> = []"
    by (rule scanRow_all_inactive) (use act in auto)
  finally have "scanRow N i row 0 [] = [runEvent N i row 2, runEvent N i row 7]" .
  then show ?thesis
    unfolding rowEvents_def span_def runEvent_def r2 r7 by simp
qed

lemma runLength_cong:
  assumes "length row = length row'"
    and "\<And>k. k < length row \<Longrightarrow> active (row ! k) = active (row' ! k)"
  shows "runLength row s len = runLength row' s len"
  using assms
proof (induction row s len rule: runLength.induct)
  case (1 row s len)
  show ?case
  proof (cases "s + len < length row \<and> active (row ! (s + len))")
    case True
    then have c': "s + len < length row' \<and> active (row' ! (s + len))"
      using "1.prems" by auto
    have "runLength row s (len + 1) = runLength row' s (len + 1)"
      using "1.IH" True "1.prems" by blast
    then show ?thesis
      using runLength_step [of "s + len" s len row "len + 1"]
        runLength_step [of "s + len" s len row' "len + 1"] True c' by simp
  next
    case False
    then have c': "\<not> (s + len < length row' \<and> active (row' ! (s + len)))"
      using "1.prems" by auto
    show ?thesis
      using runLength_done [OF refl False] runLength_done [OF refl c'] by simp
  qed
qed

lemma scanRow_cong:
  assumes len: "length row = length row'"
    and act: "\<And>k. k < length row \<Longrightarrow> active (row ! k) = active (row' ! k)"
    and vel: "\<And>k. k < length row \<Longrightarrow> active (row ! k) \<Longrightarrow>
                k = 0 \<or> \<not> active (row ! (k - 1)) \<Longrightarrow> velocity (row ! k) = velocity (row' ! k)"
    and start: "s = 0 \<or> \<not> active (row ! (s - 1)) \<or> \<not> s < length row \<or> \<not> active (row ! s)"
  shows "scanRow N i row s [] = scanRow N i row' s []"
  using start
proof (induction "length row - s" arbitrary: s rule: less_induct)
  case less
  show ?case
  proof (cases "s < length row")
    case False
    then show ?thesis using len by (simp add: scanRow_end)
  next
    case True
    then have True': "s < length row'" using len by simp
    show ?thesis
    proof (cases "active (row ! s)")
      case False
      then have False': "\<not> active (row' ! s)" using act [OF True] by simp
      have dec: "length row - (s + 1) < length row - s" using True by simp
      have "scanRow N i row (s + 1) [] = scanRow N i row' (s + 1) []"
        by (rule less.hyps [OF dec]) (simp add: False)
      then show ?thesis
        by (simp only: scanRow_inactive [OF True False] scanRow_inactive [OF True' False'])
    next
      case a: True
      then have a': "active (row' ! s)" using act [OF True] by simp
      let ?len = "runLength row s 1"
      have rl: "runLength row' s 1 = ?len"
        using runLength_cong [OF len act, of s 1] by simp
      have left: "s = 0 \<or> \<not> active (row ! (s - 1))" using less.prems True a by auto
      have ev: "runEvent N i row' s = runEvent N i row s"
        unfolding runEvent_def rl using vel [OF True a left] by simp
      have ge1: "1 \<le> ?len" by (rule runLength_ge)
      have dec: "length row - (s + ?len) < length row - s" using True ge1 by simp
      have stop: "\<not> s + ?len < length row \<or> \<not> active (row ! (s + ?len))"
        using runLength_stop [of s row 1] by blast
      have "scanRow N i row (s + ?len) [] = scanRow N i row' (s + ?len) []"
        by (rule less.hyps [OF dec]) (use stop in blast)
      then show ?thesis
        by (simp only: scanRow_active_Cons [OF True a] scanRow_active_Cons [OF True' a'] rl ev)
    qed
  qed
qed

lemma rowEvents_velocity_update:
  assumes "k < length row" "0 < k" "active (row ! (k - 1))"
  shows "rowEvents N i (row[k := (row ! k)\<lparr>velocity := v\<rparr>]) = rowEvents N i row"
  unfolding rowEvents_def
proof (rule scanRow_cong)
  let ?row' = "row[k := (row ! k)\<lparr>velocity := v\<rparr>]"
  show "length ?row' = length row" by simp
  show act: "active (?row' ! j) = active (row ! j)" if "j < length ?row'" for j
    using that by (cases "j = k") simp_all
  show "velocity (?row' ! j) = velocity (row ! j)"
    if "j < length ?row'" "active (?row' ! j)" "j = 0 \<or> \<not> active (?row' ! (j - 1))" for j
  proof (cases "j = k")
    case True
    have "k - 1 < length ?row'" using assms(1) by simp
    from act [OF this] assms(3) have "active (?row' ! (k - 1))" by simp
    with that(3) True assms(2) show ?thesis by simp
  next
    case False
    with that(1) show ?thesis by simp
  qed
  show "(0::nat) = 0 \<or> \<not> active (?row' ! (0 - 1)) \<or> \<not> 0 < length ?row' \<or> \<not> active (?row' ! 0)"
    by simp
qed

lemma rowEvents_spans:
  "set (map span (rowEvents N i row)) = {(s, d). maximalRun row s d}"
  unfolding rowEvents_def using scanRow_spans [of 0 row N i] by simp

lemma rowEvents_distinct: "distinct (map span (rowEvents N i row))"
proof -
  have "sorted_wrt (\<lambda>a b. step a < step b) (rowEvents N i row)"
    unfolding rowEvents_def
    by (rule sorted_wrt_mono_rel [OF _ scanRow_sorted]) simp
  then have "sorted_wrt (\<lambda>a b. a < b) (map step (rowEvents N i row))"
    by (simp add: sorted_wrt_map)
  then have "distinct (map step (rowEvents N i row))"
    by (simp add: strict_sorted_iff)
  moreover have "map step (rowEvents N i row) = map fst (map span (rowEvents N i row))"
    by (simp add: span_def comp_def)
  ultimately show ?thesis by (metis distinct_map)
qed

lemma rowEvents_event:
  assumes "e \<in> set (rowEvents N i row)"
  shows "maximalRun row (step e) (durationSteps e) \<and> evNote e = js_index N i \<and>
         evVelocity e = nullish (velocity (row ! step e)) 0.8"
proof -
  from assms have "span e \<in> set (map span (rowEvents N i row))" by simp
  then have "maximalRun row (step e) (durationSteps e)"
    unfolding rowEvents_spans by (simp add: span_def)
  moreover from assms have "e = runEvent N i row (step e)"
    unfolding rowEvents_def using scanRow_bounds by blast
  then have "evNote e = js_index N i \<and> evVelocity e = nullish (velocity (row ! step e)) 0.8"
    by (metis (no_types) runEvent_def SequencerEvent.select_convs(3,4))
  ultimately show ?thesis by simp
qed

lemma rowEvents_run:
  assumes "maximalRun row s d"
  shows "\<exists>e \<in> set (rowEvents N i row). step e = s \<and> durationSteps e = d \<and>
           evNote e = js_index N i \<and> evVelocity e = nullish (velocity (row ! s)) 0.8"
proof -
  from assms have "(s, d) \<in> set (map span (rowEvents N i row))"
    unfolding rowEvents_spans by simp
  then obtain e where e: "e \<in> set (rowEvents N i row)" "span e = (s, d)" by auto
  from rowEvents_event [OF e(1)] e(2) show ?thesis
    using e(1) by (auto simp: span_def)
qed

lemma extractTrackEvents_no_active:
  assumes "\<And>row c. row \<in> set pat \<Longrightarrow> c \<in> set row \<Longrightarrow> \<not> active c"
  shows "extractTrackEvents N pat = []"
proof -
  have "rowEvents N j (pat ! j) = []" if "j < length pat" for j
    unfolding rowEvents_def
    by (rule scanRow_all_inactive) (use assms [OF nth_mem [OF that] nth_mem] in simp)
  then show ?thesis
    unfolding extractTrackEvents_rows by simp
qed

text \<open>
  Claim C4. The events of a pattern are the events of its rows, one after the other, and
  the events of a row are its maximal runs of active cells, each exactly once, with the
  run's first step as \<open>step\<close> and its length as \<open>durationSteps\<close>. A row active exactly at
  steps 2, 3, 4 and 7 gives the two events (start 2, duration 3) and (start 7, duration
  1); a pattern without an active cell gives no event.
\<close>

theorem extractTrackEvents_maximal_runs:
  "extractTrackEvents N pat = concat (map (\<lambda>j. rowEvents N j (pat ! j)) [0..<length pat])
   \<and> (\<forall>j < length pat.
        distinct (map span (rowEvents N j (pat ! j))) \<and>
        set (map span (rowEvents N j (pat ! j))) = {(s, d). maximalRun (pat ! j) s d})
   \<and> (8 \<le> length row \<and> (\<forall>k < length row. active (row ! k) \<longleftrightarrow> k \<in> {2, 3, 4, 7})
        \<longrightarrow> map span (extractTrackEvents N [row]) = [(2, 3), (7, 1)])
   \<and> ((\<forall>r \<in> set pat. \<forall>c \<in> set r. \<not> active c) \<longrightarrow> extractTrackEvents N pat = [])"
proof (intro conjI allI impI)
  show "extractTrackEvents N pat = concat (map (\<lambda>j. rowEvents N j (pat ! j)) [0..<length pat])"
    by (rule extractTrackEvents_rows)
  show "distinct (map span (rowEvents N j (pat ! j)))" for j
    by (rule rowEvents_distinct)
  show "set (map span (rowEvents N j (pat ! j))) = {(s, d). maximalRun (pat ! j) s d}" for j
    by (rule rowEvents_spans)
  show "map span (extractTrackEvents N [row]) = [(2, 3), (7, 1)]"
    if "8 \<le> length row \<and> (\<forall>k < length row. active (row ! k) \<longleftrightarrow> k \<in> {2, 3, 4, 7})"
    using rowEvents_example [of row N 0] that by (simp add: extractTrackEvents_rows)
  show "extractTrackEvents N pat = []" if "\<forall>r \<in> set pat. \<forall>c \<in> set r. \<not> active c"
    by (rule extractTrackEvents_no_active) (use that in blast)
qed

theorem extractTrackEvents_maximal_runs_witness:
  "map span (extractTrackEvents [''C4''] [exampleRow]) = [(2, 3), (7, 1)]
   \<and> set (map span (rowEvents [''C4''] 0 exampleRow)) = {(s, d). maximalRun exampleRow s d}
   \<and> extractTrackEvents [''C4'']
        [[\<lparr>active = False, velocity = Some 0.8\<rparr>, \<lparr>active = False, velocity = None\<rparr>]] = []"
proof -
  have h: "8 \<le> length exampleRow \<and>
     (\<forall>k < length exampleRow. active (exampleRow ! k) \<longleftrightarrow> k \<in> {2, 3, 4, 7})"
    by (simp add: exampleRow_def All_less_Suc eval_nat_numeral)
  note t = extractTrackEvents_maximal_runs [of "[''C4'']" "[exampleRow]" exampleRow]
  from t h have a: "map span (extractTrackEvents [''C4''] [exampleRow]) = [(2, 3), (7, 1)]"
    by blast
  from t have "\<forall>j < length [exampleRow].
        set (map span (rowEvents [''C4''] j ([exampleRow] ! j))) =
        {(s, d). maximalRun ([exampleRow] ! j) s d}"
    by blast
  then have b: "set (map span (rowEvents [''C4''] 0 exampleRow)) =
      {(s, d). maximalRun exampleRow s d}"
    by simp
  let ?quiet = "[[\<lparr>active = False, velocity = Some 0.8\<rparr>, \<lparr>active = False, velocity = None\<rparr>]]"
  have q: "\<forall>r \<in> set ?quiet. \<forall>c \<in> set r. \<not> active c" by simp
  from extractTrackEvents_maximal_runs [of "[''C4'']" ?quiet exampleRow] q
  have c: "extractTrackEvents [''C4''] ?quiet = []" by blast
  from a b c show ?thesis by blast
qed

text \<open>
  Claim C9. The events of a pattern are those of row 0, then those of row 1, and so on;
  within a row the start steps increase strictly and each event ends at or before the
  start of every later one.
\<close>

theorem extractTrackEvents_row_order:
  "extractTrackEvents N pat = concat (map (\<lambda>j. rowEvents N j (pat ! j)) [0..<length pat])
   \<and> sorted_wrt (\<lambda>a b. step a < step b \<and> step a + durationSteps a \<le> step b)
        (rowEvents N j row)"
  unfolding rowEvents_def
  using extractTrackEvents_rows [of N pat, unfolded rowEvents_def] scanRow_sorted [of N j row 0]
  by simp

lemma extractTrackEvents_velocity_update:
  assumes "j < length pat" "k < length (pat ! j)" "0 < k" "active (pat ! j ! (k - 1))"
  shows "extractTrackEvents N (pat[j := (pat ! j)[k := (pat ! j ! k)\<lparr>velocity := v\<rparr>]]) =
         extractTrackEvents N pat"
proof -
  let ?row' = "(pat ! j)[k := (pat ! j ! k)\<lparr>velocity := v\<rparr>]"
  have "rowEvents N i (pat[j := ?row'] ! i) = rowEvents N i (pat ! i)" if "i < length pat" for i
  proof (cases "i = j")
    case True
    with assms show ?thesis by (simp add: rowEvents_velocity_update)
  next
    case False
    then show ?thesis by simp
  qed
  then have "map (\<lambda>i. rowEvents N i (pat[j := ?row'] ! i)) [0..<length pat] =
             map (\<lambda>i. rowEvents N i (pat ! i)) [0..<length pat]"
    by (intro map_cong) simp_all
  then show ?thesis
    unfolding extractTrackEvents_rows length_list_update by (rule arg_cong)
qed

lemma extractTrackEvents_set:
  "set (extractTrackEvents N pat) = (\<Union>j \<in> {0..<length pat}. set (rowEvents N j (pat ! j)))"
  unfolding extractTrackEvents_rows by simp

text \<open>
  Claim C6. Every event covers a maximal run of some row and has the velocity stored in
  the run's first cell (read through \<^verbatim>\<open>?? 0.8\<close>); every maximal run has such an event;
  and storing any other velocity in a cell that follows an active cell, so is not the
  first cell of a run, changes nothing in the events.
\<close>

theorem event_velocity_first_cell:
  "(\<forall>e \<in> set (extractTrackEvents N pat). \<exists>j < length pat.
        maximalRun (pat ! j) (step e) (durationSteps e) \<and> evNote e = js_index N j \<and>
        evVelocity e = nullish (velocity (pat ! j ! step e)) 0.8)
   \<and> (\<forall>j s d. j < length pat \<and> maximalRun (pat ! j) s d \<longrightarrow>
        (\<exists>e \<in> set (extractTrackEvents N pat).
           step e = s \<and> durationSteps e = d \<and> evNote e = js_index N j \<and>
           evVelocity e = nullish (velocity (pat ! j ! s)) 0.8))
   \<and> (\<forall>j k v. j < length pat \<and> k < length (pat ! j) \<and> 0 < k \<and> active (pat ! j ! (k - 1)) \<longrightarrow>
        extractTrackEvents N (pat[j := (pat ! j)[k := (pat ! j ! k)\<lparr>velocity := v\<rparr>]]) =
        extractTrackEvents N pat)"
proof (intro conjI ballI allI impI)
  fix e assume "e \<in> set (extractTrackEvents N pat)"
  then obtain j where j: "j < length pat" "e \<in> set (rowEvents N j (pat ! j))"
    unfolding extractTrackEvents_set by auto
  from rowEvents_event [OF j(2)] j(1)
  show "\<exists>j < length pat.
        maximalRun (pat ! j) (step e) (durationSteps e) \<and> evNote e = js_index N j \<and>
        evVelocity e = nullish (velocity (pat ! j ! step e)) 0.8"
    by blast
next
  fix j s d assume a: "j < length pat \<and> maximalRun (pat ! j) s d"
  from rowEvents_run [of "pat ! j" s d N j] a
  obtain e where "e \<in> set (rowEvents N j (pat ! j))" "step e = s" "durationSteps e = d"
    "evNote e = js_index N j" "evVelocity e = nullish (velocity (pat ! j ! s)) 0.8"
    by blast
  moreover from this(1) a have "e \<in> set (extractTrackEvents N pat)"
    unfolding extractTrackEvents_set by auto
  ultimately show "\<exists>e \<in> set (extractTrackEvents N pat).
           step e = s \<and> durationSteps e = d \<and> evNote e = js_index N j \<and>
           evVelocity e = nullish (velocity (pat ! j ! s)) 0.8"
    by blast
next
  fix j k v
  assume "j < length pat \<and> k < length (pat ! j) \<and> 0 < k \<and> active (pat ! j ! (k - 1))"
  then show "extractTrackEvents N (pat[j := (pat ! j)[k := (pat ! j ! k)\<lparr>velocity := v\<rparr>]]) =
        extractTrackEvents N pat"
    by (simp add: extractTrackEvents_velocity_update)
qed

theorem event_velocity_first_cell_witness:
  "(\<exists>e \<in> set (extractTrackEvents [''C4''] [exampleRow]).
      step e = 2 \<and> durationSteps e = 3 \<and> evNote e = Some ''C4'' \<and> evVelocity e = 0.5)
   \<and> extractTrackEvents [''C4''] [exampleRow[3 := (exampleRow ! 3)\<lparr>velocity := Some 0.1\<rparr>]] =
     extractTrackEvents [''C4''] [exampleRow]"
proof -
  note t = event_velocity_first_cell [of "[''C4'']" "[exampleRow]"]
  have m: "0 < length [exampleRow] \<and> maximalRun ([exampleRow] ! 0) 2 3"
    by (simp add: maximalRun_def exampleRow_def) code_simp
  from t have "\<forall>j s d. j < length [exampleRow] \<and> maximalRun ([exampleRow] ! j) s d \<longrightarrow>
        (\<exists>e \<in> set (extractTrackEvents [''C4''] [exampleRow]).
           step e = s \<and> durationSteps e = d \<and> evNote e = js_index [''C4''] j \<and>
           evVelocity e = nullish (velocity ([exampleRow] ! j ! s)) 0.8)"
    by blast
  with m have "\<exists>e \<in> set (extractTrackEvents [''C4''] [exampleRow]).
           step e = 2 \<and> durationSteps e = 3 \<and> evNote e = js_index [''C4''] 0 \<and>
           evVelocity e = nullish (velocity ([exampleRow] ! 0 ! 2)) 0.8"
    by blast
  then have a: "\<exists>e \<in> set (extractTrackEvents [''C4''] [exampleRow]).
      step e = 2 \<and> durationSteps e = 3 \<and> evNote e = Some ''C4'' \<and> evVelocity e = 0.5"
    by (simp add: js_index_def exampleRow_def)
  have u: "0 < length [exampleRow] \<and> 3 < length ([exampleRow] ! 0) \<and> (0::nat) < 3 \<and>
      active ([exampleRow] ! 0 ! (3 - 1))"
    by (simp add: exampleRow_def)
  from t have "\<forall>j k v. j < length [exampleRow] \<and> k < length ([exampleRow] ! j) \<and> 0 < k \<and>
        active ([exampleRow] ! j ! (k - 1)) \<longrightarrow>
        extractTrackEvents [''C4'']
          ([exampleRow][j := ([exampleRow] ! j)[k := ([exampleRow] ! j ! k)\<lparr>velocity := v\<rparr>]]) =
        extractTrackEvents [''C4''] [exampleRow]"
    by blast
  with u have "extractTrackEvents [''C4'']
          ([exampleRow][0 := ([exampleRow] ! 0)[3 := ([exampleRow] ! 0 ! 3)\<lparr>velocity := Some 0.1\<rparr>]]) =
        extractTrackEvents [''C4''] [exampleRow]"
    by blast
  then have b: "extractTrackEvents [''C4'']
      [exampleRow[3 := (exampleRow ! 3)\<lparr>velocity := Some 0.1\<rparr>]] =
     extractTrackEvents [''C4''] [exampleRow]"
    by simp
  from a b show ?thesis by blast
qed

section \<open>Properties of the encoders and of toggling\<close>

lemma subLe_iff:
  "subLe a b \<longleftrightarrow>
   tick a < tick b \<or> (tick a = tick b \<and> (subType a = subType b \<or> subType a = Off))"
  by (auto simp: subLe_def compareSub_def)

lemma subLe_total: "subLe a b \<or> subLe b a"
  unfolding subLe_iff by (cases "subType a"; cases "subType b") auto

lemma subLe_trans: "subLe a b \<Longrightarrow> subLe b c \<Longrightarrow> subLe a c"
  unfolding subLe_iff by (cases "subType a"; cases "subType b"; cases "subType c") auto

lemma set_insertSorted: "set (insertSorted cmp x ys) = insert x (set ys)"
  by (induction ys) auto

lemma mset_insertSorted: "mset (insertSorted cmp x ys) = add_mset x (mset ys)"
  by (induction ys) auto

lemma mset_array_sort: "mset (array_sort cmp xs) = mset xs"
  by (induction xs) (auto simp: mset_insertSorted)

lemma sorted_insertSorted:
  "sorted_wrt subLe ys \<Longrightarrow> sorted_wrt subLe (insertSorted compareSub x ys)"
proof (induction ys)
  case Nil
  show ?case by simp
next
  case (Cons y ys)
  show ?case
  proof (cases "compareSub x y \<le> 0")
    case True
    then have xy: "subLe x y" by (simp add: subLe_def)
    with Cons.prems have "\<forall>z \<in> set ys. subLe x z" by (auto intro: subLe_trans)
    with True xy Cons.prems show ?thesis by simp
  next
    case False
    then have "subLe y x" using subLe_total [of x y] by (simp add: subLe_def)
    with False Cons show ?thesis by (auto simp: set_insertSorted)
  qed
qed

lemma sorted_array_sort: "sorted_wrt subLe (array_sort compareSub xs)"
  by (induction xs) (auto intro: sorted_insertSorted)

text \<open>
  The sort keeps the sub-events of one tick and one type in the order they had: with
  the sortedness below, this fixes the result of a stable sort by this comparator.
\<close>

lemma filter_insertSorted:
  "filter (\<lambda>y. tick y = t \<and> subType y = ty) (insertSorted compareSub x ys) =
   (if tick x = t \<and> subType x = ty then x # filter (\<lambda>y. tick y = t \<and> subType y = ty) ys
    else filter (\<lambda>y. tick y = t \<and> subType y = ty) ys)"
proof (induction ys)
  case Nil
  show ?case by simp
next
  case (Cons y ys)
  show ?case
  proof (cases "compareSub x y \<le> 0")
    case True
    then show ?thesis by simp
  next
    case False
    then have "\<not> (tick x = tick y \<and> subType x = subType y)"
      by (auto simp: compareSub_def)
    with False Cons show ?thesis by auto
  qed
qed

lemma array_sort_stable:
  "filter (\<lambda>y. tick y = t \<and> subType y = ty) (array_sort compareSub xs) =
   filter (\<lambda>y. tick y = t \<and> subType y = ty) xs"
  by (induction xs) (simp_all add: filter_insertSorted)

lemma sorted_ticks: "sorted (map tick (array_sort compareSub xs))"
proof -
  have "sorted_wrt (\<lambda>a b. tick a \<le> tick b) (array_sort compareSub xs)"
    by (rule sorted_wrt_mono_rel [OF _ sorted_array_sort]) (auto simp: subLe_iff)
  then show ?thesis by (simp add: sorted_map)
qed

lemma off_before_on:
  assumes "i < length (array_sort compareSub xs)" "j < length (array_sort compareSub xs)"
    and "tick (array_sort compareSub xs ! i) = tick (array_sort compareSub xs ! j)"
    and "subType (array_sort compareSub xs ! i) = Off"
    and "subType (array_sort compareSub xs ! j) = On"
  shows "i < j"
proof (rule ccontr)
  assume "\<not> i < j"
  moreover from assms(4,5) have "i \<noteq> j" by auto
  ultimately have "j < i" by simp
  from sorted_wrt_nth_less [OF sorted_array_sort this assms(1)]
  have "subLe (array_sort compareSub xs ! j) (array_sort compareSub xs ! i)" .
  with assms(3,4,5) show False by (simp add: subLe_iff)
qed

lemma replaceFirst_same: "replaceFirst pat pat s = s"
proof (induction s)
  case Nil
  show ?case by simp
next
  case (Cons c cs)
  show ?case
  proof (cases "take (length pat) (c # cs) = pat")
    case True
    have "take (length pat) (c # cs) @ drop (length pat) (c # cs) = c # cs"
      by (rule append_take_drop_id)
    with True show ?thesis by simp
  next
    case False
    with Cons show ?thesis by simp
  qed
qed

lemma map_filter_append:
  "List.map_filter f (xs @ ys) = List.map_filter f xs @ List.map_filter f ys"
  by (simp add: List.map_filter_def)

lemma noteLabelToMidi_Some: "noteLabelToMidi (Some l) = Inr (toLowerCase l)"
  by (simp add: replaceFirst_same)

lemma emitEvents_deltas:
  "emitEvents t calls subs = Inr out \<Longrightarrow>
   noteDeltas out = noteDeltas calls @ deltaEncode t (map tick subs)"
proof (induction subs arbitrary: t calls)
  case Nil
  then show ?case by simp
next
  case (Cons a subs)
  then show ?case
    by (cases "subNote a")
       (auto simp: replaceFirst_same noteDeltas_def map_filter_append
             List.map_filter_simps Let_def split: if_splits)
qed

lemma emitEvents_labels:
  "emitEvents t calls subs = Inr out \<Longrightarrow>
   map Some (noteLabels out) =
   map Some (noteLabels calls) @ map (\<lambda>s. map_option toLowerCase (subNote s)) subs"
proof (induction subs arbitrary: t calls)
  case Nil
  then show ?case by simp
next
  case (Cons a subs)
  then show ?case
    by (cases "subNote a")
       (auto simp: replaceFirst_same noteLabels_def map_filter_append
             List.map_filter_simps Let_def split: if_splits)
qed

lemma emitEvents_types:
  "emitEvents t calls subs = Inr out \<Longrightarrow>
   List.map_filter callType out = List.map_filter callType calls @ map subType subs"
proof (induction subs arbitrary: t calls)
  case Nil
  then show ?case by simp
next
  case (Cons a subs)
  then show ?case
    by (cases "subNote a"; cases "subType a")
       (auto simp: replaceFirst_same map_filter_append
             List.map_filter_simps Let_def split: if_splits)
qed

lemma emitEvents_total:
  "(\<forall>s \<in> set subs. subNote s \<noteq> None) \<Longrightarrow> \<exists>out. emitEvents t calls subs = Inr out"
proof (induction subs arbitrary: t calls)
  case Nil
  show ?case by simp
next
  case (Cons a subs)
  then show ?case
    by (cases "subNote a") (auto simp: Let_def)
qed

lemma decode_deltaEncode: "decodeDeltas c (deltaEncode c ts) = ts"
  by (induction ts arbitrary: c) auto

lemma length_deltaEncode: "length (deltaEncode c ts) = length ts"
  by (induction ts arbitrary: c) simp_all

lemma deltaEncode_nonneg:
  "sorted (c # ts) \<Longrightarrow> \<forall>d \<in> set (deltaEncode c ts). 0 \<le> d"
  by (induction ts arbitrary: c) auto

text \<open>Rounding to a double: the exponent found, the error made, and three products.\<close>

lemma pow2_powi: "pow2 k = 2 powi k"
  by (simp add: pow2_def power_int_def power_inverse inverse_eq_divide power_one_over)


lemma pow2_mono: "k \<le> l \<Longrightarrow> pow2 k \<le> pow2 l"
  by (simp add: pow2_powi power_int_increasing)

lemma binadeFrom_ge: "e0 \<le> binadeFrom a e0 fuel"
proof (induction fuel arbitrary: e0)
  case 0
  show ?case by simp
next
  case (Suc fuel)
  from Suc [of "e0 + 1"] show ?case by simp
qed


lemma binadeFrom_eq:
  "e0 \<le> e \<Longrightarrow> e \<le> e0 + int fuel \<Longrightarrow> a < pow2 (e + 1) \<Longrightarrow> (e0 < e \<longrightarrow> pow2 e \<le> a) \<Longrightarrow>
   binadeFrom a e0 fuel = e"
proof (induction fuel arbitrary: e0)
  case 0
  then show ?case by simp
next
  case (Suc fuel)
  show ?case
  proof (cases "a < pow2 (e0 + 1)")
    case True
    have "e = e0"
    proof (rule ccontr)
      assume "e \<noteq> e0"
      with Suc.prems have lt: "e0 < e" by simp
      then have "pow2 (e0 + 1) \<le> pow2 e" by (intro pow2_mono) simp
      with Suc.prems(4) lt True show False by simp
    qed
    with True show ?thesis by simp
  next
    case False
    with Suc.prems have "e0 \<noteq> e" by auto
    with Suc.prems have "e0 + 1 \<le> e" "e \<le> (e0 + 1) + int fuel" "e0 + 1 < e \<longrightarrow> pow2 e \<le> a"
      by simp_all
    from Suc.IH [OF this(1,2) Suc.prems(3) this(3)] False show ?thesis by simp
  qed
qed


lemma exponent_eq:
  "- 1022 \<le> e \<Longrightarrow> e \<le> 1023 \<Longrightarrow> a < pow2 (e + 1) \<Longrightarrow> (- 1022 < e \<longrightarrow> pow2 e \<le> a) \<Longrightarrow>
   exponent a = e"
  unfolding exponent_def by (rule binadeFrom_eq) simp_all




lemma toDouble_eval:
  assumes "- 1022 \<le> e" "e \<le> 1023" "\<bar>x\<bar> < pow2 (e + 1)" "- 1022 < e \<longrightarrow> pow2 e \<le> \<bar>x\<bar>"
  shows "toDouble x =
     (let q = pow2 (e - 52); y = of_int (roundHalfEven (x / q)) * q
      in if 2 ^ 1024 \<le> y then PosInfinity
         else if y \<le> - (2 ^ 1024) then NegInfinity
         else Finite y)"
  unfolding toDouble_def exponent_eq [OF assms] ..

lemma velocity_half: "Math_round (js_times (1 / 2) 127) = Finite 64"
  unfolding js_times_def
  by (subst toDouble_eval [where e = 5]) (simp_all add: pow2_def roundHalfEven_def Let_def)

lemma velocity_quarter: "Math_round (js_times (1 / 4) 127) = Finite 32"
  unfolding js_times_def
  by (subst toDouble_eval [where e = 4]) (simp_all add: pow2_def roundHalfEven_def Let_def)


lemma exampleRow_events:
  "extractTrackEvents [''C4''] [exampleRow] =
     [\<lparr>step = 2, durationSteps = 3, evNote = Some ''C4'', evVelocity = 0.5\<rparr>,
      \<lparr>step = 7, durationSteps = 1, evNote = Some ''C4'', evVelocity = 0.25\<rparr>]"
  by (simp add: extractTrackEvents_def exampleRow_def scanRow.simps runLength.simps js_index_def)

lemma exampleTrack_subs:
  "trackSubEvents [''C4''] exampleTrack =
     [\<lparr>tick = 64, subType = On, subNote = Some ''C4'', subVelocity = Finite 64\<rparr>,
      \<lparr>tick = 160, subType = Off, subNote = Some ''C4'', subVelocity = Finite 0\<rparr>,
      \<lparr>tick = 224, subType = On, subNote = Some ''C4'', subVelocity = Finite 32\<rparr>,
      \<lparr>tick = 256, subType = Off, subNote = Some ''C4'', subVelocity = Finite 0\<rparr>]"
  by (simp add: trackSubEvents_def exampleTrack_def exampleRow_events flatMap_def
      expandEvent_def ticksPerStep_def ticksPerBeat_def velocity_half velocity_quarter
      compareSub_def)

lemma lower_C4: "toLowerCase ''C4'' = ''c4''"
  by code_simp

lemma exampleTrack_export:
  "exportTrack [''C4''] 122 0 exampleTrack =
     Inr [SetTempo 122, SetInstrument 0 89, NoteOn 0 ''c4'' 64 (Finite 64), NoteOff 0 ''c4'' 96 (Finite 0),
          NoteOn 0 ''c4'' 64 (Finite 32), NoteOff 0 ''c4'' 32 (Finite 0)]"
  unfolding exportTrack_def exampleTrack_subs
  by (simp add: exampleTrack_def instrumentPrograms_def replaceFirst_same lower_C4)

lemma tiedEvents_subs:
  "array_sort compareSub (flatMap expandEvent tiedEvents) =
     [\<lparr>tick = 128, subType = On, subNote = Some ''C4'', subVelocity = Finite 64\<rparr>,
      \<lparr>tick = 192, subType = Off, subNote = Some ''C4'', subVelocity = Finite 0\<rparr>,
      \<lparr>tick = 192, subType = On, subNote = Some ''C4'', subVelocity = Finite 64\<rparr>,
      \<lparr>tick = 256, subType = Off, subNote = Some ''C4'', subVelocity = Finite 0\<rparr>]"
  by (simp add: tiedEvents_def flatMap_def expandEvent_def ticksPerStep_def ticksPerBeat_def
      velocity_half compareSub_def)

lemma tiedEvents_emit:
  "emitEvents 0 [] (array_sort compareSub (flatMap expandEvent tiedEvents)) =
     Inr [NoteOn 0 ''c4'' 128 (Finite 64), NoteOff 0 ''c4'' 64 (Finite 0), NoteOn 0 ''c4'' 0 (Finite 64),
          NoteOff 0 ''c4'' 64 (Finite 0)]"
  unfolding tiedEvents_subs by (simp add: replaceFirst_same lower_C4)

lemma exportTrack_emit:
  "exportTrack N tempo index track = Inr calls \<Longrightarrow>
   \<exists>pre. noteDeltas pre = [] \<and> noteLabels pre = [] \<and> List.map_filter callType pre = [] \<and>
         emitEvents 0 pre (trackSubEvents N track) = Inr calls"
  unfolding exportTrack_def
  by (rule exI [where x = "(if index = 0 then [SetTempo tempo] else []) @
        [SetInstrument 0 (nullish (instrumentPrograms (instrument track)) 89)]"])
     (simp add: noteDeltas_def noteLabels_def List.map_filter_simps)

lemma exportTrack_deltas:
  assumes "exportTrack N tempo index track = Inr calls"
  shows "noteDeltas calls = deltaEncode 0 (map tick (trackSubEvents N track))"
proof -
  from exportTrack_emit [OF assms] obtain pre where
    "noteDeltas pre = []" "emitEvents 0 pre (trackSubEvents N track) = Inr calls" by blast
  with emitEvents_deltas [of 0 pre "trackSubEvents N track" calls] show ?thesis by simp
qed

lemma exportTrack_labels:
  assumes "exportTrack N tempo index track = Inr calls"
  shows "map Some (noteLabels calls) =
         map (\<lambda>s. map_option toLowerCase (subNote s)) (trackSubEvents N track)"
proof -
  from exportTrack_emit [OF assms] obtain pre where
    "noteLabels pre = []" "emitEvents 0 pre (trackSubEvents N track) = Inr calls" by blast
  with emitEvents_labels [of 0 pre "trackSubEvents N track" calls] show ?thesis by simp
qed

lemma expandEvent_eq:
  "expandEvent e =
     [\<lparr>tick = int (step e) * 32, subType = On, subNote = evNote e,
       subVelocity = Math_round (js_times (evVelocity e) 127)\<rparr>,
      \<lparr>tick = (int (step e) + int (durationSteps e)) * 32, subType = Off, subNote = evNote e,
       subVelocity = Finite 0\<rparr>]"
  by (simp add: expandEvent_def ticksPerStep_def ticksPerBeat_def distrib_right Let_def)

lemma subEvents_ticks_nonneg:
  "s \<in> set (array_sort compareSub (flatMap expandEvent events)) \<Longrightarrow> 0 \<le> tick s"
proof -
  assume "s \<in> set (array_sort compareSub (flatMap expandEvent events))"
  then have "s \<in># mset (array_sort compareSub (flatMap expandEvent events))" by simp
  then have "s \<in> set (flatMap expandEvent events)"
    unfolding mset_array_sort by simp
  then obtain e where "s \<in> set (expandEvent e)" by (auto simp: flatMap_def)
  then show ?thesis unfolding expandEvent_eq by auto
qed

lemma exportTrack_total:
  assumes "length (pattern track) \<le> length N"
  shows "\<exists>calls. exportTrack N tempo index track = Inr calls"
  unfolding exportTrack_def
proof (rule emitEvents_total, rule ballI)
  fix s assume "s \<in> set (trackSubEvents N track)"
  then have "s \<in># mset (trackSubEvents N track)" by simp
  then have "s \<in> set (flatMap expandEvent (extractTrackEvents N (pattern track)))"
    unfolding trackSubEvents_def mset_array_sort by simp
  then obtain e where e: "e \<in> set (extractTrackEvents N (pattern track))"
    "s \<in> set (expandEvent e)" by (auto simp: flatMap_def)
  from e(1) obtain j where j: "j < length (pattern track)"
    "e \<in> set (rowEvents N j (pattern track ! j))"
    unfolding extractTrackEvents_set by auto
  from rowEvents_event [OF j(2)] have "evNote e = js_index N j" by simp
  with j(1) assms have "evNote e \<noteq> None" by (simp add: js_index_def)
  with e(2) show "subNote s \<noteq> None" unfolding expandEvent_eq by auto
qed

text \<open>
  Claim C5. In the sorted sub-event list of any event list, an \<open>Off\<close> and an \<open>On\<close> at the
  same tick stand in that order; the two events (start 4, duration 2) and (start 6,
  duration 2) give on 128, off 192, on 192, off 256; and the writer is called in the
  order of the list.
\<close>

theorem off_sorts_before_on:
  "(\<forall>i j. i < length (array_sort compareSub (flatMap expandEvent events)) \<and>
          j < length (array_sort compareSub (flatMap expandEvent events)) \<and>
          tick (array_sort compareSub (flatMap expandEvent events) ! i) =
          tick (array_sort compareSub (flatMap expandEvent events) ! j) \<and>
          subType (array_sort compareSub (flatMap expandEvent events) ! i) = Off \<and>
          subType (array_sort compareSub (flatMap expandEvent events) ! j) = On
          \<longrightarrow> i < j)
   \<and> map (\<lambda>s. (tick s, subType s))
        (array_sort compareSub (flatMap expandEvent
          [\<lparr>step = 4, durationSteps = 2, evNote = n, evVelocity = v\<rparr>,
           \<lparr>step = 6, durationSteps = 2, evNote = n, evVelocity = w\<rparr>])) =
      [(128, On), (192, Off), (192, On), (256, Off)]
   \<and> (emitEvents t calls subs = Inr out \<longrightarrow>
        List.map_filter callType out = List.map_filter callType calls @ map subType subs)"
proof (intro conjI allI impI)
  fix i j
  assume "i < length (array_sort compareSub (flatMap expandEvent events)) \<and>
          j < length (array_sort compareSub (flatMap expandEvent events)) \<and>
          tick (array_sort compareSub (flatMap expandEvent events) ! i) =
          tick (array_sort compareSub (flatMap expandEvent events) ! j) \<and>
          subType (array_sort compareSub (flatMap expandEvent events) ! i) = Off \<and>
          subType (array_sort compareSub (flatMap expandEvent events) ! j) = On"
  then show "i < j" using off_before_on [of i "flatMap expandEvent events" j] by blast
next
  show "map (\<lambda>s. (tick s, subType s))
        (array_sort compareSub (flatMap expandEvent
          [\<lparr>step = 4, durationSteps = 2, evNote = n, evVelocity = v\<rparr>,
           \<lparr>step = 6, durationSteps = 2, evNote = n, evVelocity = w\<rparr>])) =
      [(128, On), (192, Off), (192, On), (256, Off)]"
    by (simp add: flatMap_def expandEvent_eq compareSub_def)
next
  assume "emitEvents t calls subs = Inr out"
  then show "List.map_filter callType out = List.map_filter callType calls @ map subType subs"
    by (rule emitEvents_types)
qed

theorem off_sorts_before_on_witness:
  "tick (array_sort compareSub (flatMap expandEvent tiedEvents) ! 1) = 192
   \<and> tick (array_sort compareSub (flatMap expandEvent tiedEvents) ! 2) = 192
   \<and> subType (array_sort compareSub (flatMap expandEvent tiedEvents) ! 1) = Off
   \<and> subType (array_sort compareSub (flatMap expandEvent tiedEvents) ! 2) = On
   \<and> (1::nat) < 2
   \<and> List.map_filter callType
        [NoteOn 0 ''c4'' 128 (Finite 64), NoteOff 0 ''c4'' 64 (Finite 0), NoteOn 0 ''c4'' 0 (Finite 64),
         NoteOff 0 ''c4'' 64 (Finite 0)] = [On, Off, On, Off]"
proof -
  let ?s = "array_sort compareSub (flatMap expandEvent tiedEvents)"
  let ?out = "[NoteOn 0 ''c4'' 128 (Finite 64), NoteOff 0 ''c4'' 64 (Finite 0), NoteOn 0 ''c4'' 0 (Finite 64),
         NoteOff 0 ''c4'' 64 (Finite 0)]"
  note t = off_sorts_before_on [of tiedEvents None 0 0 0 "[]" ?s ?out]
  have h: "1 < length ?s \<and> 2 < length ?s \<and> tick (?s ! 1) = tick (?s ! 2) \<and>
      subType (?s ! 1) = Off \<and> subType (?s ! 2) = On"
    unfolding tiedEvents_subs by simp
  have a: "(1::nat) < 2"
    by (rule t [THEN conjunct1, rule_format, of 1 2]) (rule h)
  have "List.map_filter callType ?out = List.map_filter callType [] @ map subType ?s"
    by (rule t [THEN conjunct2, THEN conjunct2, rule_format]) (rule tiedEvents_emit)
  then have b: "List.map_filter callType ?out = [On, Off, On, Off]"
    unfolding tiedEvents_subs by (simp add: List.map_filter_simps)
  from h a b show ?thesis unfolding tiedEvents_subs by simp
qed

text \<open>
  Claim C7. The export of a track whose rows all have a note name completes, and an
  emission whose sub-events all have a note completes; the deltas handed to the writer
  are then the delta-time form of the ticks, from a cursor at 0 (each delta the tick
  minus the cursor, the cursor moved to the tick), one per sub-event, and their running
  sums are the ticks again. This holds for every sub-event list, sorted or not.
\<close>

theorem delta_round_trip:
  "decodeDeltas c (deltaEncode c ts) = ts
   \<and> ((\<forall>s \<in> set subs. subNote s \<noteq> None) \<longrightarrow>
        (\<exists>out. emitEvents 0 [] subs = Inr out \<and>
               noteDeltas out = deltaEncode 0 (map tick subs) \<and>
               length (noteDeltas out) = length subs \<and>
               decodeDeltas 0 (noteDeltas out) = map tick subs))
   \<and> (length (pattern track) \<le> length N \<longrightarrow>
        (\<exists>calls. exportTrack N tempo index track = Inr calls \<and>
                 noteDeltas calls = deltaEncode 0 (map tick (trackSubEvents N track)) \<and>
                 length (noteDeltas calls) = length (trackSubEvents N track) \<and>
                 decodeDeltas 0 (noteDeltas calls) = map tick (trackSubEvents N track)))
   \<and> (emitEvents 0 [] subs = Inr out \<longrightarrow>
        noteDeltas out = deltaEncode 0 (map tick subs) \<and>
        decodeDeltas 0 (noteDeltas out) = map tick subs)
   \<and> (exportTrack N tempo index track = Inr calls \<longrightarrow>
        noteDeltas calls = deltaEncode 0 (map tick (trackSubEvents N track)) \<and>
        decodeDeltas 0 (noteDeltas calls) = map tick (trackSubEvents N track))"
proof (intro conjI impI)
  show "decodeDeltas c (deltaEncode c ts) = ts" by (rule decode_deltaEncode)
next
  assume "\<forall>s \<in> set subs. subNote s \<noteq> None"
  from emitEvents_total [OF this, of 0 "[]"] obtain out' where
    e: "emitEvents 0 [] subs = Inr out'" by blast
  from emitEvents_deltas [OF e]
  have d: "noteDeltas out' = deltaEncode 0 (map tick subs)"
    by (simp add: noteDeltas_def List.map_filter_simps)
  have "length (noteDeltas out') = length subs"
    unfolding d by (simp add: length_deltaEncode)
  moreover have "decodeDeltas 0 (noteDeltas out') = map tick subs"
    unfolding d by (rule decode_deltaEncode)
  ultimately show "\<exists>out. emitEvents 0 [] subs = Inr out \<and>
               noteDeltas out = deltaEncode 0 (map tick subs) \<and>
               length (noteDeltas out) = length subs \<and>
               decodeDeltas 0 (noteDeltas out) = map tick subs"
    using e d by blast
next
  assume "length (pattern track) \<le> length N"
  from exportTrack_total [OF this, of tempo index] obtain calls' where
    e: "exportTrack N tempo index track = Inr calls'" by blast
  note d = exportTrack_deltas [OF e]
  have "length (noteDeltas calls') = length (trackSubEvents N track)"
    unfolding d by (simp add: length_deltaEncode)
  moreover have "decodeDeltas 0 (noteDeltas calls') = map tick (trackSubEvents N track)"
    unfolding d by (rule decode_deltaEncode)
  ultimately show "\<exists>calls. exportTrack N tempo index track = Inr calls \<and>
                 noteDeltas calls = deltaEncode 0 (map tick (trackSubEvents N track)) \<and>
                 length (noteDeltas calls) = length (trackSubEvents N track) \<and>
                 decodeDeltas 0 (noteDeltas calls) = map tick (trackSubEvents N track)"
    using e d by blast
next
  assume "emitEvents 0 [] subs = Inr out"
  from emitEvents_deltas [OF this]
  show d: "noteDeltas out = deltaEncode 0 (map tick subs)"
    by (simp add: noteDeltas_def List.map_filter_simps)
  show "decodeDeltas 0 (noteDeltas out) = map tick subs"
    unfolding d by (rule decode_deltaEncode)
next
  assume "exportTrack N tempo index track = Inr calls"
  from exportTrack_deltas [OF this]
  show d: "noteDeltas calls = deltaEncode 0 (map tick (trackSubEvents N track))" .
  show "decodeDeltas 0 (noteDeltas calls) = map tick (trackSubEvents N track)"
    unfolding d by (rule decode_deltaEncode)
qed

theorem delta_round_trip_witness:
  "(\<exists>calls. exportTrack [''C4''] 122 0 exampleTrack = Inr calls \<and>
            noteDeltas calls = [64, 96, 64, 32] \<and>
            decodeDeltas 0 (noteDeltas calls) = [64, 160, 224, 256])
   \<and> (\<exists>out. emitEvents 0 [] (array_sort compareSub (flatMap expandEvent tiedEvents)) = Inr out \<and>
            noteDeltas out = [128, 64, 0, 64] \<and>
            decodeDeltas 0 (noteDeltas out) = [128, 192, 192, 256])"
proof
  let ?s = "array_sort compareSub (flatMap expandEvent tiedEvents)"
  note t = delta_round_trip [of 0 "[]" ?s exampleTrack "[''C4'']" 122 0]
  have fits: "length (pattern exampleTrack) \<le> length [''C4'']"
    by (simp add: exampleTrack_def)
  have "\<exists>calls. exportTrack [''C4''] 122 0 exampleTrack = Inr calls \<and>
      noteDeltas calls = deltaEncode 0 (map tick (trackSubEvents [''C4''] exampleTrack)) \<and>
      length (noteDeltas calls) = length (trackSubEvents [''C4''] exampleTrack) \<and>
      decodeDeltas 0 (noteDeltas calls) = map tick (trackSubEvents [''C4''] exampleTrack)"
    by (rule t [THEN conjunct2, THEN conjunct2, THEN conjunct1, THEN mp]) (rule fits)
  then show "\<exists>calls. exportTrack [''C4''] 122 0 exampleTrack = Inr calls \<and>
      noteDeltas calls = [64, 96, 64, 32] \<and>
      decodeDeltas 0 (noteDeltas calls) = [64, 160, 224, 256]"
    unfolding exampleTrack_subs by auto
  have named: "\<forall>s \<in> set ?s. subNote s \<noteq> None"
    unfolding tiedEvents_subs by simp
  have "\<exists>out. emitEvents 0 [] ?s = Inr out \<and>
      noteDeltas out = deltaEncode 0 (map tick ?s) \<and>
      length (noteDeltas out) = length ?s \<and>
      decodeDeltas 0 (noteDeltas out) = map tick ?s"
    by (rule t [THEN conjunct2, THEN conjunct1, THEN mp]) (rule named)
  then show "\<exists>out. emitEvents 0 [] ?s = Inr out \<and>
      noteDeltas out = [128, 64, 0, 64] \<and>
      decodeDeltas 0 (noteDeltas out) = [128, 192, 192, 256]"
    unfolding tiedEvents_subs by auto
qed

text \<open>
  Claim C10. Every delta handed to \<^verbatim>\<open>noteOn\<close>/\<^verbatim>\<open>noteOff\<close> in the export of a track is
  non-negative.
\<close>

theorem deltas_nonnegative:
  "exportTrack N tempo index track = Inr calls \<Longrightarrow> \<forall>d \<in> set (noteDeltas calls). 0 \<le> d"
proof -
  assume e: "exportTrack N tempo index track = Inr calls"
  let ?ts = "map tick (trackSubEvents N track)"
  have "sorted ?ts" unfolding trackSubEvents_def by (rule sorted_ticks)
  moreover have "\<forall>t \<in> set ?ts. 0 \<le> t"
    unfolding trackSubEvents_def using subEvents_ticks_nonneg by auto
  ultimately have "sorted (0 # ?ts)" by simp
  from deltaEncode_nonneg [OF this] show ?thesis
    unfolding exportTrack_deltas [OF e] .
qed

theorem deltas_nonnegative_witness:
  "exportTrack [''C4''] 122 0 exampleTrack =
     Inr [SetTempo 122, SetInstrument 0 89, NoteOn 0 ''c4'' 64 (Finite 64), NoteOff 0 ''c4'' 96 (Finite 0),
          NoteOn 0 ''c4'' 64 (Finite 32), NoteOff 0 ''c4'' 32 (Finite 0)]
   \<and> list_all (\<lambda>d. 0 \<le> d) (noteDeltas
         [SetTempo 122, SetInstrument 0 89, NoteOn 0 ''c4'' 64 (Finite 64), NoteOff 0 ''c4'' 96 (Finite 0),
          NoteOn 0 ''c4'' 64 (Finite 32), NoteOff 0 ''c4'' 32 (Finite 0)])"
proof
  show e: "exportTrack [''C4''] 122 0 exampleTrack =
     Inr [SetTempo 122, SetInstrument 0 89, NoteOn 0 ''c4'' 64 (Finite 64), NoteOff 0 ''c4'' 96 (Finite 0),
          NoteOn 0 ''c4'' 64 (Finite 32), NoteOff 0 ''c4'' 32 (Finite 0)]"
    by (rule exampleTrack_export)
  show "list_all (\<lambda>d. 0 \<le> d) (noteDeltas
         [SetTempo 122, SetInstrument 0 89, NoteOn 0 ''c4'' 64 (Finite 64), NoteOff 0 ''c4'' 96 (Finite 0),
          NoteOn 0 ''c4'' 64 (Finite 32), NoteOff 0 ''c4'' 32 (Finite 0)])"
    unfolding list_all_iff by (rule deltas_nonnegative [OF e])
qed




text \<open>
  Claim C3 fails as stated: the event of the example track has the label \<^verbatim>\<open>C4\<close>, the
  writer is handed \<^verbatim>\<open>c4\<close>.
\<close>

theorem label_passed_unchanged_counterexample:
  "exportTrack [''C4''] 122 0 exampleTrack =
     Inr [SetTempo 122, SetInstrument 0 89, NoteOn 0 ''c4'' 64 (Finite 64), NoteOff 0 ''c4'' 96 (Finite 0),
          NoteOn 0 ''c4'' 64 (Finite 32), NoteOff 0 ''c4'' 32 (Finite 0)]
   \<and> map subNote (trackSubEvents [''C4''] exampleTrack) =
       [Some ''C4'', Some ''C4'', Some ''C4'', Some ''C4'']
   \<and> map Some (noteLabels
         [SetTempo 122, SetInstrument 0 89, NoteOn 0 ''c4'' 64 (Finite 64), NoteOff 0 ''c4'' 96 (Finite 0),
          NoteOn 0 ''c4'' 64 (Finite 32), NoteOff 0 ''c4'' 32 (Finite 0)]) \<noteq>
       map subNote (trackSubEvents [''C4''] exampleTrack)"
  unfolding exampleTrack_subs exampleTrack_export
  by (simp add: noteLabels_def List.map_filter_simps)

text \<open>
  Claim C3, amended. The label handed to \<^verbatim>\<open>noteOn\<close>/\<^verbatim>\<open>noteOff\<close> is the event's label
  in lower case; a label without a letter from A to Z is handed over as it is.
\<close>

theorem label_lower_cased:
  "(exportTrack N tempo index track = Inr calls \<longrightarrow>
      map Some (noteLabels calls) =
      map (\<lambda>s. map_option toLowerCase (subNote s)) (trackSubEvents N track))
   \<and> noteLabelToMidi (Some l) = Inr (toLowerCase l)
   \<and> ((\<forall>c \<in> set l. \<not> (65 \<le> (of_char c :: nat) \<and> (of_char c :: nat) \<le> 90)) \<longrightarrow>
        noteLabelToMidi (Some l) = Inr l)"
proof (intro conjI impI)
  assume "exportTrack N tempo index track = Inr calls"
  then show "map Some (noteLabels calls) =
      map (\<lambda>s. map_option toLowerCase (subNote s)) (trackSubEvents N track)"
    by (rule exportTrack_labels)
next
  show "noteLabelToMidi (Some l) = Inr (toLowerCase l)" by (rule noteLabelToMidi_Some)
next
  assume "\<forall>c \<in> set l. \<not> (65 \<le> (of_char c :: nat) \<and> (of_char c :: nat) \<le> 90)"
  then have "map lowerChar l = l"
    by (induction l) (auto simp: lowerChar_def Let_def)
  then show "noteLabelToMidi (Some l) = Inr l"
    by (simp add: noteLabelToMidi_Some toLowerCase_def del: noteLabelToMidi.simps)
qed

theorem label_lower_cased_witness:
  "map Some (noteLabels
      [SetTempo 122, SetInstrument 0 89, NoteOn 0 ''c4'' 64 (Finite 64), NoteOff 0 ''c4'' 96 (Finite 0),
       NoteOn 0 ''c4'' 64 (Finite 32), NoteOff 0 ''c4'' 32 (Finite 0)]) =
   map (\<lambda>s. map_option toLowerCase (subNote s)) (trackSubEvents [''C4''] exampleTrack)
   \<and> noteLabelToMidi (Some ''f#3'') = Inr ''f#3''"
proof
  note t = label_lower_cased [of "[''C4'']" 122 0 exampleTrack _ "''f#3''"]
  show "map Some (noteLabels
      [SetTempo 122, SetInstrument 0 89, NoteOn 0 ''c4'' 64 (Finite 64), NoteOff 0 ''c4'' 96 (Finite 0),
       NoteOn 0 ''c4'' 64 (Finite 32), NoteOff 0 ''c4'' 32 (Finite 0)]) =
   map (\<lambda>s. map_option toLowerCase (subNote s)) (trackSubEvents [''C4''] exampleTrack)"
    by (rule t [THEN conjunct1, rule_format]) (rule exampleTrack_export)
  have "\<forall>c \<in> set ''f#3''. \<not> (65 \<le> (of_char c :: nat) \<and> (of_char c :: nat) \<le> 90)"
    by simp
  then show "noteLabelToMidi (Some ''f#3'') = Inr ''f#3''"
    by (rule t [THEN conjunct2, THEN conjunct2, THEN mp])
qed

lemma mapIndexed_id:
  "(\<And>i. i < length xs \<Longrightarrow> f (xs ! i) i = xs ! i) \<Longrightarrow> mapIndexed f xs = xs"
  unfolding mapIndexed_def
  by (rule nth_equalityI) (simp_all add: nth_enumerate_eq)

text \<open>
  Claim C2 fails as stated: with a row or step outside the pattern (too large, or
  negative) \<^verbatim>\<open>toggleCell\<close> returns the track list it was given.
\<close>

theorem toggleCell_rejects_counterexample:
  "toggleCell ''t1'' 5 0 None [exampleTrack] = [exampleTrack]
   \<and> toggleCell ''t1'' 0 99 (Some True) [exampleTrack] = [exampleTrack]
   \<and> toggleCell ''t1'' (- 1) 0 None [exampleTrack] = [exampleTrack]"
  by (simp add: toggleCell_def exampleTrack_def exampleRow_def mapIndexed_def enumerate_eq_zip)

text \<open>
  Claim C2, amended. With a row or step outside the pattern of the addressed track,
  \<^verbatim>\<open>toggleCell\<close> raises nothing and leaves every track as it was.
\<close>

theorem toggleCell_out_of_range:
  "(\<forall>track \<in> set prev. trackId track = tid \<longrightarrow>
      row < 0 \<or> stp < 0 \<or> length (pattern track) \<le> nat row \<or>
      length (pattern track ! nat row) \<le> nat stp) \<Longrightarrow>
   toggleCell tid row stp forceState prev = prev"
proof -
  assume oor: "\<forall>track \<in> set prev. trackId track = tid \<longrightarrow>
      row < 0 \<or> stp < 0 \<or> length (pattern track) \<le> nat row \<or>
      length (pattern track ! nat row) \<le> nat stp"
  have "(if trackId track \<noteq> tid then track
        else track\<lparr>pattern :=
          mapIndexed (\<lambda>noteRow rowIdx.
            mapIndexed (\<lambda>cell stepIdx.
              if int rowIdx \<noteq> row \<or> int stepIdx \<noteq> stp then cell
              else toggledCell forceState cell) noteRow) (pattern track)\<rparr>) = track"
    if t: "track \<in> set prev" for track
  proof (cases "trackId track = tid")
    case False
    then show ?thesis by simp
  next
    case True
    with oor t have r: "row < 0 \<or> stp < 0 \<or> length (pattern track) \<le> nat row \<or>
      length (pattern track ! nat row) \<le> nat stp" by blast
    have "mapIndexed (\<lambda>noteRow rowIdx.
            mapIndexed (\<lambda>cell stepIdx.
              if int rowIdx \<noteq> row \<or> int stepIdx \<noteq> stp then cell
              else toggledCell forceState cell) noteRow) (pattern track) = pattern track"
    proof (rule mapIndexed_id)
      fix i assume i: "i < length (pattern track)"
      show "mapIndexed (\<lambda>cell stepIdx.
              if int i \<noteq> row \<or> int stepIdx \<noteq> stp then cell
              else toggledCell forceState cell) (pattern track ! i) = pattern track ! i"
      proof (rule mapIndexed_id)
        fix k assume k: "k < length (pattern track ! i)"
        have "int i \<noteq> row \<or> int k \<noteq> stp" using r i k by auto
        then show "(if int i \<noteq> row \<or> int k \<noteq> stp then pattern track ! i ! k
              else toggledCell forceState (pattern track ! i ! k)) = pattern track ! i ! k"
          by simp
      qed
    qed
    then show ?thesis by simp
  qed
  then show ?thesis
    unfolding toggleCell_def by (simp add: map_idI)
qed

theorem toggleCell_out_of_range_witness:
  "toggleCell ''t1'' 0 8 None [exampleTrack] = [exampleTrack]"
  by (rule toggleCell_out_of_range) (simp add: exampleTrack_def exampleRow_def)

lemma scheduleTrack_synths:
  "synths (scheduleTrack N lb audio track) =
     (if muted track then synths audio
      else (synths audio)(trackId track \<mapsto>
             \<lparr>kind = buildInstrument (instrument track), synthVolume = volume track\<rparr>))"
  by (simp add: scheduleTrack_def Let_def)

lemma scheduleTrack_parts:
  "length (parts (scheduleTrack N lb audio track)) =
     length (parts audio) + (if sounding N track then 1 else 0)"
  by (simp add: scheduleTrack_def sounding_def Let_def)

lemma scheduleTrack_transport:
  "bpm (scheduleTrack N lb audio track) = bpm audio \<and>
   swing (scheduleTrack N lb audio track) = swing audio \<and>
   loopEnd (scheduleTrack N lb audio track) = loopEnd audio \<and>
   running (scheduleTrack N lb audio track) = running audio"
  by (simp add: scheduleTrack_def Let_def)

lemma foldl_scheduleTrack_synths:
  "synths (foldl (scheduleTrack N lb) audio tracks) k \<noteq> None \<longleftrightarrow>
   synths audio k \<noteq> None \<or> (\<exists>t \<in> set tracks. trackId t = k \<and> \<not> muted t)"
proof (induction tracks arbitrary: audio)
  case Nil
  show ?case by simp
next
  case (Cons t tracks)
  show ?case
    unfolding foldl_Cons Cons.IH scheduleTrack_synths by auto
qed

lemma foldl_scheduleTrack_parts:
  "length (parts (foldl (scheduleTrack N lb) audio tracks)) =
   length (parts audio) + length (filter (sounding N) tracks)"
proof (induction tracks arbitrary: audio)
  case Nil
  show ?case by simp
next
  case (Cons t tracks)
  show ?case
    unfolding foldl_Cons Cons.IH scheduleTrack_parts by simp
qed

lemma setupPlayback_Inr:
  assumes "setupPlayback ok N TS tempo sw tracks keep audio = Inr audio'"
  shows "synths audio' = synths (foldl (scheduleTrack N ((TS + 15) div 16))
            (audio\<lparr>bpm := tempo, swing := sw / 100, loopEnd := (TS + 15) div 16,
                   parts := [], synths := Map.empty\<rparr>) tracks)
       \<and> parts audio' = parts (foldl (scheduleTrack N ((TS + 15) div 16))
            (audio\<lparr>bpm := tempo, swing := sw / 100, loopEnd := (TS + 15) div 16,
                   parts := [], synths := Map.empty\<rparr>) tracks)"
  using assms by (auto simp: setupPlayback_def Let_def split: if_splits)

text \<open>
  Claim C1 fails as stated: an unmuted track without an event gets a synth, and no part.
\<close>

theorem voice_for_sounding_tracks_only_counterexample:
  "setupPlayback True [''C4''] 16 122 0 [quietTrack] False idleAudio =
     Inr \<lparr>parts = [],
          synths = [''t2'' \<mapsto> \<lparr>kind = PolyTriangle, synthVolume = - 8\<rparr>],
          bpm = 122, swing = 0, loopEnd = 1, running = True\<rparr>
   \<and> \<not> muted quietTrack
   \<and> extractTrackEvents [''C4''] (pattern quietTrack) = []"
  by (simp add: setupPlayback_def scheduleTrack_def quietTrack_def idleAudio_def
      buildInstrument_def extractTrackEvents_def scanRow.simps)

text \<open>
  Claim C1, amended. After playback setup the synths are those of the unmuted tracks,
  with or without events, and there is one part for each unmuted track with an event.
\<close>

theorem voice_for_unmuted_tracks:
  "setupPlayback ok N TS tempo sw tracks keep audio = Inr audio' \<Longrightarrow>
   (synths audio' k \<noteq> None \<longleftrightarrow> (\<exists>t \<in> set tracks. trackId t = k \<and> \<not> muted t))
   \<and> length (parts audio') = length (filter (sounding N) tracks)"
proof -
  assume a: "setupPlayback ok N TS tempo sw tracks keep audio = Inr audio'"
  note r = setupPlayback_Inr [OF a]
  show ?thesis
    unfolding r [THEN conjunct1] r [THEN conjunct2]
      foldl_scheduleTrack_synths foldl_scheduleTrack_parts
    by simp
qed

lemma scheduleTrack_exampleTrack:
  "scheduleTrack [''C4''] lb audio exampleTrack =
     audio\<lparr>synths := (synths audio)(''t1'' \<mapsto> \<lparr>kind = PolyTriangle, synthVolume = - 8\<rparr>),
           parts := parts audio @
             [\<lparr>partEvents =
                 [((0, 0, 2),
                   \<lparr>step = 2, durationSteps = 3, evNote = Some ''C4'', evVelocity = 0.5\<rparr>),
                  ((0, 1, 3),
                   \<lparr>step = 7, durationSteps = 1, evNote = Some ''C4'', evVelocity = 0.25\<rparr>)],
               partSynth = \<lparr>kind = PolyTriangle, synthVolume = - 8\<rparr>, partLoopEnd = lb\<rparr>]\<rparr>"
proof -
  have x: "extractTrackEvents [''C4''] (pattern exampleTrack) =
     [\<lparr>step = 2, durationSteps = 3, evNote = Some ''C4'', evVelocity = 0.5\<rparr>,
      \<lparr>step = 7, durationSteps = 1, evNote = Some ''C4'', evVelocity = 0.25\<rparr>]"
    by (simp add: exampleTrack_def exampleRow_events)
  show ?thesis
    unfolding scheduleTrack_def x
    by (simp add: exampleTrack_def buildInstrument_def stepToTransportTime_def Let_def)
qed

lemma scheduleTrack_quietTrack:
  "scheduleTrack [''C4''] lb audio quietTrack =
     audio\<lparr>synths := (synths audio)(''t2'' \<mapsto> \<lparr>kind = PolyTriangle, synthVolume = - 8\<rparr>)\<rparr>"
proof -
  have q: "extractTrackEvents [''C4''] (pattern quietTrack) = []"
    by (simp add: quietTrack_def extractTrackEvents_def scanRow.simps)
  show ?thesis
    unfolding scheduleTrack_def q
    by (simp add: quietTrack_def buildInstrument_def Let_def)
qed

lemma scheduleTrack_mutedTrack: "scheduleTrack N lb audio mutedTrack = audio"
  by (simp add: scheduleTrack_def mutedTrack_def)

lemma threeTracks_setup:
  "setupPlayback True [''C4''] 16 122 0 [exampleTrack, quietTrack, mutedTrack] False idleAudio =
     Inr \<lparr>parts =
            [\<lparr>partEvents =
                [((0, 0, 2),
                  \<lparr>step = 2, durationSteps = 3, evNote = Some ''C4'', evVelocity = 0.5\<rparr>),
                 ((0, 1, 3),
                  \<lparr>step = 7, durationSteps = 1, evNote = Some ''C4'', evVelocity = 0.25\<rparr>)],
              partSynth = \<lparr>kind = PolyTriangle, synthVolume = - 8\<rparr>, partLoopEnd = 1\<rparr>],
          synths = [''t1'' \<mapsto> \<lparr>kind = PolyTriangle, synthVolume = - 8\<rparr>,
                    ''t2'' \<mapsto> \<lparr>kind = PolyTriangle, synthVolume = - 8\<rparr>],
          bpm = 122, swing = 0, loopEnd = 1, running = True\<rparr>"
  unfolding setupPlayback_def
  by (simp add: Let_def scheduleTrack_exampleTrack scheduleTrack_quietTrack
      scheduleTrack_mutedTrack idleAudio_def)

theorem voice_for_unmuted_tracks_witness:
  "[''t1'' \<mapsto> \<lparr>kind = PolyTriangle, synthVolume = - 8\<rparr>,
    ''t2'' \<mapsto> \<lparr>kind = PolyTriangle, synthVolume = - 8\<rparr>] ''t2'' \<noteq> None
   \<and> [''t1'' \<mapsto> \<lparr>kind = PolyTriangle, synthVolume = - 8\<rparr>,
      ''t2'' \<mapsto> \<lparr>kind = PolyTriangle, synthVolume = - 8\<rparr>] ''t3'' = None
   \<and> length (filter (sounding [''C4'']) [exampleTrack, quietTrack, mutedTrack]) = 1"
proof -
  note t = voice_for_unmuted_tracks [OF threeTracks_setup]
  have a: "\<exists>t \<in> set [exampleTrack, quietTrack, mutedTrack]. trackId t = ''t2'' \<and> \<not> muted t"
    by (simp add: quietTrack_def)
  have b: "\<not> (\<exists>t \<in> set [exampleTrack, quietTrack, mutedTrack]. trackId t = ''t3'' \<and> \<not> muted t)"
    by (simp add: quietTrack_def exampleTrack_def mutedTrack_def)
  from t [of "''t2''", THEN conjunct1] a
  have "[''t1'' \<mapsto> \<lparr>kind = PolyTriangle, synthVolume = - 8\<rparr>,
         ''t2'' \<mapsto> \<lparr>kind = PolyTriangle, synthVolume = - 8\<rparr>] ''t2'' \<noteq> None"
    by (simp only: Audio.select_convs simp_thms)
  moreover from t [of "''t3''", THEN conjunct1] b
  have "[''t1'' \<mapsto> \<lparr>kind = PolyTriangle, synthVolume = - 8\<rparr>,
         ''t2'' \<mapsto> \<lparr>kind = PolyTriangle, synthVolume = - 8\<rparr>] ''t3'' = None"
    by (simp only: Audio.select_convs simp_thms)
  moreover from t [of "''t1''", THEN conjunct2]
  have "length (filter (sounding [''C4'']) [exampleTrack, quietTrack, mutedTrack]) = 1"
    by (simp only: Audio.select_convs list.size)
  ultimately show ?thesis by (intro conjI)
qed

end
